theory Spec2Isabelle
  imports Complex_Main "HOL-Library.Sublist"
begin

section \<open>Python values and exceptions\<close>

text \<open>
  The library is Python 2 (it imports \<^verbatim>\<open>commands\<close>) with
  \<^verbatim>\<open>from __future__ import division\<close>: integers are unbounded (\<^typ>\<open>int\<close>) and
  \<^verbatim>\<open>/\<close> is true division, modelled exactly in \<^typ>\<open>rat\<close>.  The exceptions that the
  modelled methods can raise are values of \<open>error\<close>.
\<close>

datatype error =
    ValueError string
  | UnboundLocalError string
  | IndexError
  | ZeroDivisionError

text \<open>Python's \<^verbatim>\<open>xs[i]\<close>: negative indices count from the end, out of range raises.\<close>

definition getitem :: "'a list \<Rightarrow> int \<Rightarrow> error + 'a" where
  "getitem xs i =
     (if 0 \<le> i \<and> i < int (length xs) then Inr (xs ! nat i)
      else if i < 0 \<and> - int (length xs) \<le> i then Inr (xs ! nat (int (length xs) + i))
      else Inl IndexError)"

text \<open>Python's \<^verbatim>\<open>xs[i] = v\<close>.\<close>

definition setitem :: "'a list \<Rightarrow> int \<Rightarrow> 'a \<Rightarrow> error + 'a list" where
  "setitem xs i v =
     (if 0 \<le> i \<and> i < int (length xs) then Inr (xs[nat i := v])
      else if i < 0 \<and> - int (length xs) \<le> i then Inr (xs[nat (int (length xs) + i) := v])
      else Inl IndexError)"

text \<open>Python's \<^verbatim>\<open>a / b\<close> on integers under true division.\<close>

definition truediv :: "int \<Rightarrow> int \<Rightarrow> error + rat" where
  "truediv a b = (if b = 0 then Inl ZeroDivisionError else Inr (of_int a / of_int b))"

text \<open>
  Python's \<^verbatim>\<open>s.find(sub)\<close>: the lowest index at which \<open>sub\<close> occurs in \<open>s\<close>,
  or \<open>-1\<close>.
\<close>

fun find_from :: "string \<Rightarrow> string \<Rightarrow> int \<Rightarrow> int" where
  "find_from [] sub i = (if sub = [] then i else - 1)"
| "find_from (c # cs) sub i = (if prefix sub (c # cs) then i else find_from cs sub (i + 1))"

definition find_str :: "string \<Rightarrow> string \<Rightarrow> int" where
  "find_str s sub = find_from s sub 0"

section \<open>The motor driver and the clock\<close>

text \<open>
  Modelled from the spec: the \<^verbatim>\<open>brickpi3\<close> driver class is not among the sources; section 6
  of the specification gives its interface (set power, set position target, set speed
  limit, read encoder, offset encoder zero).  A \<open>brick\<close> is the driver together with the
  world it talks to: \<open>log\<close> is every command sent and every pause taken so far, oldest
  first, and \<open>sensor\<close> is the world's answer to an encoder read after a given history.
  Nothing is assumed about \<open>sensor\<close>.  \<^verbatim>\<open>time.sleep\<close> is logged in milliseconds.
\<close>

datatype port = PORT_A | PORT_B | PORT_C | PORT_D

datatype event =
    Set_motor_power port int
  | Set_motor_position port rat
  | Set_motor_limits port int rat
  | Get_motor_encoder port int
  | Offset_motor_encoder port int
  | Sleep nat

record brick =
  log :: "event list"
  sensor :: "event list \<Rightarrow> port \<Rightarrow> int"

definition emit :: "event \<Rightarrow> brick \<Rightarrow> brick" where
  "emit e b = b\<lparr>log := log b @ [e]\<rparr>"

definition set_motor_power :: "port \<Rightarrow> int \<Rightarrow> brick \<Rightarrow> brick" where
  "set_motor_power p pw = emit (Set_motor_power p pw)"

definition set_motor_position :: "port \<Rightarrow> rat \<Rightarrow> brick \<Rightarrow> brick" where
  "set_motor_position p position = emit (Set_motor_position p position)"

definition set_motor_limits :: "port \<Rightarrow> int \<Rightarrow> rat \<Rightarrow> brick \<Rightarrow> brick" where
  "set_motor_limits p pw dps = emit (Set_motor_limits p pw dps)"

definition offset_motor_encoder :: "port \<Rightarrow> int \<Rightarrow> brick \<Rightarrow> brick" where
  "offset_motor_encoder p offset = emit (Offset_motor_encoder p offset)"

definition read_encoder :: "port \<Rightarrow> brick \<Rightarrow> int" where
  "read_encoder p b = sensor b (log b) p"

definition get_motor_encoder :: "port \<Rightarrow> brick \<Rightarrow> brick" where
  "get_motor_encoder p b = emit (Get_motor_encoder p (read_encoder p b)) b"

definition sleep :: "nat \<Rightarrow> brick \<Rightarrow> brick" where
  "sleep ms = emit (Sleep ms)"

section \<open>The robot object\<close>

text \<open>
  The instance attributes of \<^verbatim>\<open>BricKuberLib\<close>, with the class attributes \<^verbatim>\<open>BP\<close> and
  \<^verbatim>\<open>CCO\<close> that the methods reach through \<^verbatim>\<open>self\<close>.
\<close>

record state =
  BP :: brick
  debug :: bool
  TurnTablePinion :: int
  TurnTableGear :: int
  MOTOR_GRAB_POSITION_HOME :: int
  MOTOR_GRAB_POSITION_REST :: int
  MOTOR_GRAB_POSITION_FLIP_PUSH :: int
  MOTOR_GRAB_POSITION_GRAB :: int
  MOTOR_GRAB_POSITION_FLIP :: int
  MOTOR_GRAB_SPEED_GRAB :: int
  MOTOR_GRAB_SPEED_FLIP :: int
  MOTOR_GRAB_SPEED_REST :: int
  TurnTableTarget :: int
  CCO :: "int list"

definition MOTOR_GRAB :: int where "MOTOR_GRAB = 0"
definition MOTOR_TURN :: int where "MOTOR_TURN = 1"
definition MOTOR_PORTS :: "port list" where "MOTOR_PORTS = [PORT_D, PORT_A]"

text \<open>
  A method is a \<open>prog\<close>: from the object before the call to \<open>None\<close> when the call never
  returns, or to the object after the call with either the exception raised or the value
  returned.
\<close>

type_synonym 'a prog = "state \<Rightarrow> ((error + 'a) \<times> state) option"

definition return :: "'a \<Rightarrow> 'a prog" where
  "return a s = Some (Inr a, s)"

definition raise :: "error \<Rightarrow> 'a prog" where
  "raise e s = Some (Inl e, s)"

definition bnd :: "'a prog \<Rightarrow> ('a \<Rightarrow> 'b prog) \<Rightarrow> 'b prog" where
  "bnd m f s =
     (case m s of
        None \<Rightarrow> None
      | Some (Inl e, s') \<Rightarrow> Some (Inl e, s')
      | Some (Inr a, s') \<Rightarrow> f a s')"

definition seq :: "unit prog \<Rightarrow> 'b prog \<Rightarrow> 'b prog" where
  "seq m n = bnd m (\<lambda>_. n)"

definition eval :: "(state \<Rightarrow> error + 'a) \<Rightarrow> 'a prog" where
  "eval f s = (case f s of Inl e \<Rightarrow> Some (Inl e, s) | Inr a \<Rightarrow> Some (Inr a, s))"

definition modify :: "(state \<Rightarrow> state) \<Rightarrow> unit prog" where
  "modify f s = Some (Inr (), f s)"

definition drive :: "(brick \<Rightarrow> brick) \<Rightarrow> unit prog" where
  "drive f = modify (\<lambda>s. s\<lparr>BP := f (BP s)\<rparr>)"

definition motor_port :: "int \<Rightarrow> port prog" where
  "motor_port i = eval (\<lambda>s. getitem MOTOR_PORTS i)"

text \<open>\<^verbatim>\<open>self.BP.f(self.MOTOR_PORTS[i], ...)\<close> for a driver call \<open>f\<close> that returns nothing.\<close>

definition command :: "int \<Rightarrow> (port \<Rightarrow> brick \<Rightarrow> brick) \<Rightarrow> unit prog" where
  "command i f = bnd (motor_port i) (\<lambda>p. drive (f p))"

text \<open>\<^verbatim>\<open>self.BP.get_motor_encoder(self.MOTOR_PORTS[i])\<close>.\<close>

definition encoder_of :: "int \<Rightarrow> int prog" where
  "encoder_of i =
     bnd (motor_port i) (\<lambda>p s.
       Some (Inr (read_encoder p (BP s)), s\<lparr>BP := get_motor_encoder p (BP s)\<rparr>))"

section \<open>Position control\<close>

text \<open>
  The \<^verbatim>\<open>while\<close> loop of \<^verbatim>\<open>run_to_position\<close> (lines 88 to 90), started with the first
  reading in \<open>encoder\<close>.  It may never end, so it is a partial function: \<open>None\<close> is a
  call that does not return.
\<close>

partial_function (option) wait_position :: "port \<Rightarrow> rat \<Rightarrow> int \<Rightarrow> int \<Rightarrow> brick \<Rightarrow> brick option" where
  "wait_position p position tolerance encoder b =
     (if of_int encoder > position + of_int tolerance \<or> of_int encoder < position - of_int tolerance
      then wait_position p position tolerance (read_encoder p (sleep 10 b))
             (get_motor_encoder p (sleep 10 b))
      else Some b)"

definition run_to_position :: "int \<Rightarrow> rat \<Rightarrow> int \<Rightarrow> unit prog" where
  "run_to_position port position tolerance =
     seq (command port (\<lambda>p. set_motor_position p position))
    (bnd (encoder_of port) (\<lambda>encoder.
     bnd (motor_port port) (\<lambda>p s.
       case wait_position p position tolerance encoder (BP s) of
         None \<Rightarrow> None
       | Some b \<Rightarrow> Some (Inr (), s\<lparr>BP := b\<rparr>))))"

section \<open>The turntable\<close>

text \<open>The expression \<^verbatim>\<open>(self.TurnTableTarget * self.TurnTableGear) / self.TurnTablePinion\<close>.\<close>

definition turn_position :: "rat prog" where
  "turn_position = eval (\<lambda>s. truediv (TurnTableTarget s * TurnTableGear s) (TurnTablePinion s))"

definition spin :: "int \<Rightarrow> int \<Rightarrow> unit prog" where
  "spin deg overshoot0 =
     (let overshoot = (if deg < 0 then - overshoot0 else overshoot0) in
      seq (modify (\<lambda>s. s\<lparr>TurnTableTarget := TurnTableTarget s - (deg + overshoot)\<rparr>))
     (seq (bnd turn_position (\<lambda>position. run_to_position MOTOR_TURN position 3))
          (if overshoot \<noteq> 0
           then seq (modify (\<lambda>s. s\<lparr>TurnTableTarget := TurnTableTarget s + overshoot\<rparr>))
                    (bnd turn_position (\<lambda>position. run_to_position MOTOR_TURN position 3))
           else return ())))"

section \<open>The gripper\<close>

definition grab :: "unit prog" where
  "grab =
     seq (\<lambda>s. command MOTOR_GRAB (\<lambda>p. set_motor_limits p 0 (of_int (MOTOR_GRAB_SPEED_GRAB s))) s)
    (seq (\<lambda>s. run_to_position MOTOR_GRAB (of_int (MOTOR_GRAB_POSITION_GRAB s)) 3 s)
         (drive (sleep 200)))"

definition release :: "unit prog" where
  "release =
     seq (\<lambda>s. command MOTOR_GRAB (\<lambda>p. set_motor_limits p 0 (of_int (MOTOR_GRAB_SPEED_REST s))) s)
         (\<lambda>s. run_to_position MOTOR_GRAB (of_int (MOTOR_GRAB_POSITION_REST s)) 3 s)"

text \<open>The parameter \<^verbatim>\<open>release\<close> of \<^verbatim>\<open>flip\<close> is \<open>rel\<close> here.\<close>

definition flip :: "bool \<Rightarrow> unit prog" where
  "flip rel =
     seq (\<lambda>s. run_to_position MOTOR_GRAB (of_int (MOTOR_GRAB_POSITION_FLIP_PUSH s)) 3 s)
    (seq (drive (sleep 50))
    (seq grab
    (seq (drive (sleep 200))
    (seq (\<lambda>s. command MOTOR_GRAB (\<lambda>p. set_motor_limits p 0 (of_int (MOTOR_GRAB_SPEED_FLIP s))) s)
    (seq (\<lambda>s. run_to_position MOTOR_GRAB (of_int (MOTOR_GRAB_POSITION_FLIP s)) 3 s)
    (seq (\<lambda>s. run_to_position MOTOR_GRAB (of_int (MOTOR_GRAB_POSITION_FLIP_PUSH s)) 3 s)
         (if rel then release else return ())))))))"

section \<open>Homing and construction\<close>

text \<open>
  The \<^verbatim>\<open>while\<close> loop of \<^verbatim>\<open>home_all\<close> (lines 73 to 76); it returns the last reading.
\<close>

partial_function (option) wait_stall :: "port \<Rightarrow> int \<Rightarrow> int \<Rightarrow> brick \<Rightarrow> (int \<times> brick) option" where
  "wait_stall p EncoderLast EncoderNow b =
     (if EncoderNow \<noteq> EncoderLast
      then wait_stall p EncoderNow (read_encoder p (sleep 100 b))
             (get_motor_encoder p (sleep 100 b))
      else Some (EncoderNow, b))"

definition home_all :: "unit prog" where
  "home_all =
     seq (command MOTOR_GRAB (\<lambda>p. set_motor_power p 15))
    (bnd (encoder_of MOTOR_GRAB) (\<lambda>EncoderLast.
     seq (drive (sleep 100))
    (bnd (encoder_of MOTOR_GRAB) (\<lambda>EncoderNow0.
     bnd (bnd (motor_port MOTOR_GRAB) (\<lambda>p s.
            case wait_stall p EncoderLast EncoderNow0 (BP s) of
              None \<Rightarrow> None
            | Some (e, b) \<Rightarrow> Some (Inr e, s\<lparr>BP := b\<rparr>))) (\<lambda>EncoderNow.
     seq (command MOTOR_GRAB (\<lambda>p. offset_motor_encoder p (EncoderNow - 25)))
    (seq (\<lambda>s. command MOTOR_GRAB
                 (\<lambda>p. set_motor_position p (of_int (MOTOR_GRAB_POSITION_REST s))) s)
    (seq (bnd (encoder_of MOTOR_TURN) (\<lambda>e. command MOTOR_TURN (\<lambda>p. offset_motor_encoder p e)))
    (seq (modify (\<lambda>s. s\<lparr>TurnTableTarget := 0\<rparr>))
         (spin 0 0)))))))))"

text \<open>
  Lines 31 to 61 of \<^verbatim>\<open>__init__\<close>: the attributes of a new object.  \<open>CCO\<close> is the class
  attribute \<^verbatim>\<open>[0, 1, 2]\<close>, which a first object sees unchanged.  \<open>TurnTableTarget\<close> does
  not exist yet; \<^verbatim>\<open>home_all\<close> assigns it before anything reads it, so the \<open>0\<close> here is
  never observed.
\<close>

definition configure :: "string \<Rightarrow> bool \<Rightarrow> brick \<Rightarrow> error + state" where
  "configure robot_style dbg bp =
     (if robot_style = ''NXT1'' then
        Inr \<lparr>BP = bp, debug = dbg,
             TurnTablePinion = 24, TurnTableGear = 56,
             MOTOR_GRAB_POSITION_HOME = 0,
             MOTOR_GRAB_POSITION_REST = - 35,
             MOTOR_GRAB_POSITION_FLIP_PUSH = - 90,
             MOTOR_GRAB_POSITION_GRAB = - 130,
             MOTOR_GRAB_POSITION_FLIP = - 240,
             MOTOR_GRAB_SPEED_GRAB = 400,
             MOTOR_GRAB_SPEED_FLIP = 600,
             MOTOR_GRAB_SPEED_REST = 400,
             TurnTableTarget = 0, CCO = [0, 1, 2]\<rparr>
      else if robot_style = ''EV3'' then
        Inr \<lparr>BP = bp, debug = dbg,
             TurnTablePinion = 12, TurnTableGear = 36,
             MOTOR_GRAB_POSITION_HOME = 0,
             MOTOR_GRAB_POSITION_REST = - 35,
             MOTOR_GRAB_POSITION_FLIP_PUSH = - 90,
             MOTOR_GRAB_POSITION_GRAB = - 130,
             MOTOR_GRAB_POSITION_FLIP = - 240,
             MOTOR_GRAB_SPEED_GRAB = 400,
             MOTOR_GRAB_SPEED_FLIP = 600,
             MOTOR_GRAB_SPEED_REST = 400,
             TurnTableTarget = 0, CCO = [0, 1, 2]\<rparr>
      else Inl (ValueError ''Unsupported robot style''))"

text \<open>
  \<^verbatim>\<open>__init__\<close>: \<open>None\<close> when homing never ends, otherwise the exception or the new
  object, together with the driver as the call leaves it.  The driver is the class
  attribute \<^verbatim>\<open>BP\<close>: it exists before the call and outlives a constructor that raises.
\<close>

definition init :: "string \<Rightarrow> bool \<Rightarrow> brick \<Rightarrow> ((error + state) \<times> brick) option" where
  "init robot_style dbg bp =
     (case configure robot_style dbg bp of
        Inl e \<Rightarrow> Some (Inl e, bp)
      | Inr s0 \<Rightarrow>
          (case seq (bnd (eval (\<lambda>s. truediv (500 * TurnTableGear s) (TurnTablePinion s)))
                      (\<lambda>dps. command MOTOR_TURN (\<lambda>p. set_motor_limits p 0 dps)))
                    home_all s0 of
             None \<Rightarrow> None
           | Some (Inl e, s) \<Rightarrow> Some (Inl e, BP s)
           | Some (Inr u, s) \<Rightarrow> Some (Inr s, BP s)))"

section \<open>Orientation tracking and the move dispatcher\<close>

definition OF :: "int \<Rightarrow> int" where
  "OF f = (if f < 3 then f + 3 else f - 3)"

text \<open>\<^verbatim>\<open>self.CCO[i]\<close> and \<^verbatim>\<open>self.CCO[i] = v\<close>.\<close>

definition CCO_get :: "int \<Rightarrow> int prog" where
  "CCO_get i = eval (\<lambda>s. getitem (CCO s) i)"

definition CCO_set :: "int \<Rightarrow> int \<Rightarrow> unit prog" where
  "CCO_set i v s =
     (case setitem (CCO s) i v of
        Inl e \<Rightarrow> Some (Inl e, s)
      | Inr c \<Rightarrow> Some (Inr (), s\<lparr>CCO := c\<rparr>))"

text \<open>Lines 139 to 144 of \<^verbatim>\<open>Move\<close>: the degrees of the face turn.\<close>

definition DegreesToTurnFace :: "string \<Rightarrow> int" where
  "DegreesToTurnFace cmd =
     (if find_str cmd [CHR 0x27] \<noteq> - 1 then 90
      else if find_str cmd ''2'' \<noteq> - 1 then - 180
      else - 90)"

text \<open>
  Lines 146 to 157 of \<^verbatim>\<open>Move\<close>: the local variable \<^verbatim>\<open>FaceToTurn\<close>, \<open>None\<close> when no
  branch assigns it.
\<close>

definition FaceToTurn :: "string \<Rightarrow> int option" where
  "FaceToTurn cmd =
     (if find_str cmd ''U'' \<noteq> - 1 then Some 0
      else if find_str cmd ''F'' \<noteq> - 1 then Some 1
      else if find_str cmd ''R'' \<noteq> - 1 then Some 2
      else if find_str cmd ''D'' \<noteq> - 1 then Some 3
      else if find_str cmd ''B'' \<noteq> - 1 then Some 4
      else if find_str cmd ''L'' \<noteq> - 1 then Some 5
      else None)"

text \<open>Lines 159 to 220 of \<^verbatim>\<open>Move\<close>: bring the face \<open>f\<close> to the bottom.\<close>

definition reorient :: "int \<Rightarrow> unit prog" where
  "reorient f =
     bnd (CCO_get 0) (\<lambda>c0.
     if f = c0 then
       seq (flip False)
      (seq (flip False)
      (seq (bnd (CCO_get 0) (\<lambda>x. CCO_set 0 (OF x)))
           (bnd (CCO_get 1) (\<lambda>x. CCO_set 1 (OF x)))))
     else bnd (CCO_get 1) (\<lambda>c1.
     if f = c1 then
       seq release
      (seq (spin 180 0)
      (seq (bnd (CCO_get 1) (\<lambda>x. CCO_set 1 (OF x)))
      (seq (bnd (CCO_get 2) (\<lambda>x. CCO_set 2 (OF x)))
      (seq (flip False)
      (bnd (CCO_get 0) (\<lambda>tmp.
       seq (bnd (CCO_get 1) (CCO_set 0))
           (CCO_set 1 (OF tmp))))))))
     else bnd (CCO_get 2) (\<lambda>c2.
     if f = c2 then
       seq release
      (seq (spin (- 90) 0)
      (bnd (CCO_get 2) (\<lambda>tmp.
       seq (bnd (CCO_get 1) (CCO_set 2))
      (seq (CCO_set 1 (OF tmp))
      (seq (flip False)
      (bnd (CCO_get 0) (\<lambda>tmp.
       seq (bnd (CCO_get 1) (CCO_set 0))
           (CCO_set 1 (OF tmp)))))))))
     else bnd (CCO_get 0) (\<lambda>c0.
     if f = OF c0 then return ()
     else bnd (CCO_get 1) (\<lambda>c1.
     if f = OF c1 then
       seq (flip False)
      (bnd (CCO_get 0) (\<lambda>tmp.
       seq (bnd (CCO_get 1) (CCO_set 0))
           (CCO_set 1 (OF tmp))))
     else bnd (CCO_get 2) (\<lambda>c2.
     if f = OF c2 then
       seq release
      (seq (spin 90 0)
      (bnd (CCO_get 1) (\<lambda>tmp.
       seq (bnd (CCO_get 2) (CCO_set 1))
      (seq (CCO_set 2 (OF tmp))
      (seq (flip False)
      (bnd (CCO_get 0) (\<lambda>tmp.
       seq (bnd (CCO_get 1) (CCO_set 0))
           (CCO_set 1 (OF tmp)))))))))
     else return ()))))))"

text \<open>
  The same lines with the path on which none of the six comparisons holds made explicit.
  The chain has no \<^verbatim>\<open>else\<close>, so Python does nothing there: \<open>reorient\<close> is this chain
  with \<open>return ()\<close> for \<open>fall\<close>.
\<close>

definition reorient_else :: "unit prog \<Rightarrow> int \<Rightarrow> unit prog" where
  "reorient_else fall f =
     bnd (CCO_get 0) (\<lambda>c0.
     if f = c0 then
       seq (flip False)
      (seq (flip False)
      (seq (bnd (CCO_get 0) (\<lambda>x. CCO_set 0 (OF x)))
           (bnd (CCO_get 1) (\<lambda>x. CCO_set 1 (OF x)))))
     else bnd (CCO_get 1) (\<lambda>c1.
     if f = c1 then
       seq release
      (seq (spin 180 0)
      (seq (bnd (CCO_get 1) (\<lambda>x. CCO_set 1 (OF x)))
      (seq (bnd (CCO_get 2) (\<lambda>x. CCO_set 2 (OF x)))
      (seq (flip False)
      (bnd (CCO_get 0) (\<lambda>tmp.
       seq (bnd (CCO_get 1) (CCO_set 0))
           (CCO_set 1 (OF tmp))))))))
     else bnd (CCO_get 2) (\<lambda>c2.
     if f = c2 then
       seq release
      (seq (spin (- 90) 0)
      (bnd (CCO_get 2) (\<lambda>tmp.
       seq (bnd (CCO_get 1) (CCO_set 2))
      (seq (CCO_set 1 (OF tmp))
      (seq (flip False)
      (bnd (CCO_get 0) (\<lambda>tmp.
       seq (bnd (CCO_get 1) (CCO_set 0))
           (CCO_set 1 (OF tmp)))))))))
     else bnd (CCO_get 0) (\<lambda>c0.
     if f = OF c0 then return ()
     else bnd (CCO_get 1) (\<lambda>c1.
     if f = OF c1 then
       seq (flip False)
      (bnd (CCO_get 0) (\<lambda>tmp.
       seq (bnd (CCO_get 1) (CCO_set 0))
           (CCO_set 1 (OF tmp))))
     else bnd (CCO_get 2) (\<lambda>c2.
     if f = OF c2 then
       seq release
      (seq (spin 90 0)
      (bnd (CCO_get 1) (\<lambda>tmp.
       seq (bnd (CCO_get 2) (CCO_set 1))
      (seq (CCO_set 2 (OF tmp))
      (seq (flip False)
      (bnd (CCO_get 0) (\<lambda>tmp.
       seq (bnd (CCO_get 1) (CCO_set 0))
           (CCO_set 1 (OF tmp)))))))))
     else fall))))))"

text \<open>
  \<^verbatim>\<open>Move\<close>.  Reading \<^verbatim>\<open>FaceToTurn\<close> on line 159 when no branch has assigned it raises
  \<^verbatim>\<open>UnboundLocalError\<close>.
\<close>

definition Move :: "string \<Rightarrow> unit prog" where
  "Move cmd =
     (let RecoverFace = 22 in
      case FaceToTurn cmd of
        None \<Rightarrow> raise (UnboundLocalError ''FaceToTurn'')
      | Some f \<Rightarrow>
          seq (reorient f)
         (seq grab
              (spin (DegreesToTurnFace cmd) RecoverFace)))"

section \<open>Vocabulary of the specification\<close>

subsection \<open>Orientations\<close>

text \<open>
  An orientation is a triple of faces \<open>0..5\<close>, pairwise distinct and pairwise
  non-opposite.
\<close>

fun valid_orientation :: "int list \<Rightarrow> bool" where
  "valid_orientation [u, f, r] =
     ((0 \<le> u \<and> u \<le> 5) \<and> (0 \<le> f \<and> f \<le> 5) \<and> (0 \<le> r \<and> r \<le> 5) \<and>
      u \<noteq> f \<and> u \<noteq> r \<and> f \<noteq> r \<and>
      u \<noteq> OF f \<and> u \<noteq> OF r \<and> f \<noteq> OF u \<and> f \<noteq> OF r \<and> r \<noteq> OF u \<and> r \<noteq> OF f)"
| "valid_orientation c = False"

text \<open>The objects that calls of \<^verbatim>\<open>Move\<close> can produce from the orientation \<^verbatim>\<open>[0, 1, 2]\<close>.\<close>

inductive reachable :: "state \<Rightarrow> bool" where
  start: "CCO s = [0, 1, 2] \<Longrightarrow> reachable s"
| move: "reachable s \<Longrightarrow> Move cmd s = Some (r, s') \<Longrightarrow> reachable s'"

subsection \<open>The transition table of section 4.4\<close>

datatype action = Flip | Release | Spin int int | Grab

fun perform :: "action \<Rightarrow> unit prog" where
  "perform Flip = flip False"
| "perform Release = release"
| "perform (Spin deg overshoot) = spin deg overshoot"
| "perform Grab = grab"

fun perform_all :: "action list \<Rightarrow> unit prog" where
  "perform_all [] = return ()"
| "perform_all (a # as) = seq (perform a) (perform_all as)"

text \<open>The update \<^verbatim>\<open>tmp=U; U=F; F=OF(tmp)\<close> that the table attaches to a flip.\<close>

definition on_flip :: "int \<Rightarrow> int \<Rightarrow> int \<Rightarrow> int list" where
  "on_flip U F R = [F, OF U, R]"

text \<open>
  The rows of the table in their order: the physical actions and the orientation after
  the row's update, for the orientation \<open>[U, F, R]\<close> and the target face \<open>t\<close>.
\<close>

definition table :: "int \<Rightarrow> int \<Rightarrow> int \<Rightarrow> int \<Rightarrow> (action list \<times> int list) option" where
  "table U F R t =
     (if t = U then Some ([Flip, Flip], [OF U, OF F, R])
      else if t = F then Some ([Release, Spin 180 0, Flip], on_flip U (OF F) (OF R))
      else if t = R then Some ([Release, Spin (- 90) 0, Flip], on_flip U (OF R) F)
      else if t = OF U then Some ([], [U, F, R])
      else if t = OF F then Some ([Flip], on_flip U F R)
      else if t = OF R then Some ([Release, Spin 90 0, Flip], on_flip U R (OF F))
      else None)"

text \<open>
  The degrees by which a list of actions spins the turntable, and those of the table's row
  for an orientation and a target face.
\<close>

fun turned :: "action list \<Rightarrow> int" where
  "turned [] = 0"
| "turned (Spin deg overshoot # as) = deg + turned as"
| "turned (a # as) = turned as"

definition spun :: "int \<Rightarrow> int \<Rightarrow> int \<Rightarrow> int \<Rightarrow> int" where
  "spun U F R t = (case table U F R t of None \<Rightarrow> 0 | Some (acts, c) \<Rightarrow> turned acts)"

subsection \<open>Sequences of spins\<close>

fun spin_all :: "(int \<times> int) list \<Rightarrow> unit prog" where
  "spin_all [] = return ()"
| "spin_all ((deg, overshoot) # ds) = seq (spin deg overshoot) (spin_all ds)"

subsection \<open>Readings seen by a position seek\<close>

text \<open>The condition of the loop of \<^verbatim>\<open>run_to_position\<close>.\<close>

definition outside :: "rat \<Rightarrow> int \<Rightarrow> int \<Rightarrow> bool" where
  "outside position tolerance encoder \<longleftrightarrow>
     of_int encoder > position + of_int tolerance \<or> of_int encoder < position - of_int tolerance"

text \<open>
  The reading and the brick when the loop is entered, and after \<open>n\<close> further rounds of
  a 10 ms pause and a read.
\<close>

definition first_poll :: "port \<Rightarrow> rat \<Rightarrow> brick \<Rightarrow> int \<times> brick" where
  "first_poll p position b =
     (read_encoder p (set_motor_position p position b),
      get_motor_encoder p (set_motor_position p position b))"

fun polls :: "port \<Rightarrow> nat \<Rightarrow> int \<times> brick \<Rightarrow> int \<times> brick" where
  "polls p 0 x = x"
| "polls p (Suc n) x =
     polls p n (read_encoder p (sleep 10 (snd x)), get_motor_encoder p (sleep 10 (snd x)))"

subsection \<open>Calibration profiles\<close>

definition gears :: "state \<Rightarrow> int list" where
  "gears s = [TurnTablePinion s, TurnTableGear s]"

definition grip_positions :: "state \<Rightarrow> int list" where
  "grip_positions s =
     [MOTOR_GRAB_POSITION_HOME s, MOTOR_GRAB_POSITION_REST s, MOTOR_GRAB_POSITION_FLIP_PUSH s,
      MOTOR_GRAB_POSITION_GRAB s, MOTOR_GRAB_POSITION_FLIP s]"

definition grip_speeds :: "state \<Rightarrow> int list" where
  "grip_speeds s = [MOTOR_GRAB_SPEED_GRAB s, MOTOR_GRAB_SPEED_FLIP s, MOTOR_GRAB_SPEED_REST s]"

text \<open>The configured values of a profile, or the exception of the constructor.\<close>

definition profile :: "string \<Rightarrow> error + int list" where
  "profile robot_style =
     (case configure robot_style False \<lparr>log = [], sensor = (\<lambda>h p. 0)\<rparr> of
        Inl e \<Rightarrow> Inl e
      | Inr s \<Rightarrow> Inr (gears s @ grip_positions s @ grip_speeds s))"

subsection \<open>Effects of a method\<close>

text \<open>A method that neither reads nor writes the orientation.\<close>

definition oblivious :: "'a prog \<Rightarrow> bool" where
  "oblivious m \<longleftrightarrow>
     (\<forall>s c. m (s\<lparr>CCO := c\<rparr>) = map_option (\<lambda>(r, s'). (r, s'\<lparr>CCO := c\<rparr>)) (m s))"

text \<open>A method that leaves the cumulative target alone.\<close>

definition keeps_target :: "'a prog \<Rightarrow> bool" where
  "keeps_target m \<longleftrightarrow> (\<forall>s r s'. m s = Some (r, s') \<longrightarrow> TurnTableTarget s' = TurnTableTarget s)"

text \<open>A method that raises nothing.\<close>

definition never_raises :: "'a prog \<Rightarrow> bool" where
  "never_raises m \<longleftrightarrow> (\<forall>s e s'. m s \<noteq> Some (Inl e, s'))"

text \<open>What a call leaves behind: the result, the orientation and the cumulative target.\<close>

definition outcome :: "unit prog \<Rightarrow> state \<Rightarrow> ((error + unit) \<times> int list \<times> int) option" where
  "outcome m s = map_option (\<lambda>(r, s'). (r, CCO s', TurnTableTarget s')) (m s)"

definition trace :: "unit prog \<Rightarrow> state \<Rightarrow> event list option" where
  "trace m s = map_option (\<lambda>(r, s'). log (BP s')) (m s)"

text \<open>The object a call leaves behind (the object itself when the call never returns).\<close>

definition after :: "unit prog \<Rightarrow> state \<Rightarrow> state" where
  "after m s = (case m s of None \<Rightarrow> s | Some (r, s') \<Rightarrow> s')"

subsection \<open>Worlds to run the robot in\<close>

text \<open>
  In the first world a motor is found at the floor of its last commanded position
  whenever it is read; in the second every motor is jammed at 1000.
\<close>

fun last_target :: "event list \<Rightarrow> port \<Rightarrow> rat" where
  "last_target [] p = 0"
| "last_target (Set_motor_position q x # h) p = (if q = p then x else last_target h p)"
| "last_target (e # h) p = last_target h p"

definition settled :: "event list \<Rightarrow> port \<Rightarrow> int" where
  "settled h p = \<lfloor>last_target (rev h) p\<rfloor>"

definition jammed :: "event list \<Rightarrow> port \<Rightarrow> int" where
  "jammed h p = 1000"

text \<open>In a third world a motor has moved by 25 for every pause taken so far.\<close>

fun pauses :: "event list \<Rightarrow> nat" where
  "pauses [] = 0"
| "pauses (Sleep ms # h) = Suc (pauses h)"
| "pauses (e # h) = pauses h"

definition ramp :: "event list \<Rightarrow> port \<Rightarrow> int" where
  "ramp h p = 25 * int (pauses h)"

definition robot_in :: "(event list \<Rightarrow> port \<Rightarrow> int) \<Rightarrow> state" where
  "robot_in w =
     \<lparr>BP = \<lparr>log = [], sensor = w\<rparr>, debug = False,
      TurnTablePinion = 24, TurnTableGear = 56,
      MOTOR_GRAB_POSITION_HOME = 0,
      MOTOR_GRAB_POSITION_REST = - 35,
      MOTOR_GRAB_POSITION_FLIP_PUSH = - 90,
      MOTOR_GRAB_POSITION_GRAB = - 130,
      MOTOR_GRAB_POSITION_FLIP = - 240,
      MOTOR_GRAB_SPEED_GRAB = 400,
      MOTOR_GRAB_SPEED_FLIP = 600,
      MOTOR_GRAB_SPEED_REST = 400,
      TurnTableTarget = 0, CCO = [0, 1, 2]\<rparr>"

section \<open>Properties\<close>

subsection \<open>Laws of the method calculus\<close>

lemma bnd_return [simp]: "bnd (return a) f = f a"
  by (rule ext) (simp add: bnd_def return_def)

lemma seq_return [simp]: "seq (return ()) n = n"
  by (simp add: seq_def)

lemma oblivious_return: "oblivious (return a)"
  by (simp add: oblivious_def return_def)

lemma oblivious_bnd:
  assumes m: "oblivious m" and f: "\<And>a. oblivious (f a)"
  shows "oblivious (bnd m f)"
  unfolding oblivious_def
proof (intro allI)
  fix s c
  have ms: "m (s\<lparr>CCO := c\<rparr>) = map_option (\<lambda>(r, s'). (r, s'\<lparr>CCO := c\<rparr>)) (m s)"
    using m unfolding oblivious_def by blast
  show "bnd m f (s\<lparr>CCO := c\<rparr>) = map_option (\<lambda>(r, s'). (r, s'\<lparr>CCO := c\<rparr>)) (bnd m f s)"
  proof (cases "m s")
    case None
    then show ?thesis using ms by (simp add: bnd_def)
  next
    case (Some x)
    obtain r s' where x: "x = (r, s')" by (cases x)
    show ?thesis
    proof (cases r)
      case (Inl e)
      then show ?thesis using ms Some x by (simp add: bnd_def)
    next
      case (Inr a)
      have "f a (s'\<lparr>CCO := c\<rparr>) = map_option (\<lambda>(r, s'). (r, s'\<lparr>CCO := c\<rparr>)) (f a s')"
        using f [of a] unfolding oblivious_def by blast
      then show ?thesis using ms Some x Inr by (simp add: bnd_def)
    qed
  qed
qed

lemma oblivious_seq: "oblivious m \<Longrightarrow> oblivious n \<Longrightarrow> oblivious (seq m n)"
  by (simp add: seq_def oblivious_bnd)

lemma oblivious_read:
  assumes h: "\<And>x. oblivious (h x)" and g: "\<And>s c. g (s\<lparr>CCO := c\<rparr>) = g s"
  shows "oblivious (\<lambda>s. h (g s) s)"
  unfolding oblivious_def
proof (intro allI)
  fix s c
  have "h (g s) (s\<lparr>CCO := c\<rparr>) = map_option (\<lambda>(r, s'). (r, s'\<lparr>CCO := c\<rparr>)) (h (g s) s)"
    using h [of "g s"] unfolding oblivious_def by blast
  then show "h (g (s\<lparr>CCO := c\<rparr>)) (s\<lparr>CCO := c\<rparr>) = map_option (\<lambda>(r, s'). (r, s'\<lparr>CCO := c\<rparr>)) (h (g s) s)"
    by (simp only: g)
qed

lemma oblivious_drive: "oblivious (drive f)"
  by (simp add: oblivious_def drive_def modify_def)

lemma oblivious_motor_port: "oblivious (motor_port i)"
  by (simp add: oblivious_def motor_port_def eval_def split: sum.splits)

lemma oblivious_command: "oblivious (command i f)"
  by (simp add: command_def oblivious_bnd oblivious_motor_port oblivious_drive)

lemma oblivious_encoder_of: "oblivious (encoder_of i)"
  unfolding encoder_of_def
  by (rule oblivious_bnd [OF oblivious_motor_port]) (simp add: oblivious_def)

lemma oblivious_wait:
  "oblivious (\<lambda>s. case wait_position p position tolerance encoder (BP s) of
         None \<Rightarrow> None
       | Some b \<Rightarrow> Some (Inr (), s\<lparr>BP := b\<rparr>))"
  unfolding oblivious_def
proof (intro allI)
  fix s c
  show "(case wait_position p position tolerance encoder (BP (s\<lparr>CCO := c\<rparr>)) of None \<Rightarrow> None
        | Some b \<Rightarrow> Some (Inr (), s\<lparr>CCO := c\<rparr>\<lparr>BP := b\<rparr>)) =
       map_option (\<lambda>(r, s'). (r, s'\<lparr>CCO := c\<rparr>))
        (case wait_position p position tolerance encoder (BP s) of None \<Rightarrow> None
         | Some b \<Rightarrow> Some (Inr (), s\<lparr>BP := b\<rparr>))"
    by (cases "wait_position p position tolerance encoder (BP s)") simp_all
qed

lemma oblivious_run_to_position: "oblivious (run_to_position port position tolerance)"
  unfolding run_to_position_def
  by (rule oblivious_seq [OF oblivious_command]) (rule oblivious_bnd [OF oblivious_encoder_of], rule oblivious_bnd [OF oblivious_motor_port], rule oblivious_wait)


lemma oblivious_limits:
  "(\<And>s c. g (s\<lparr>CCO := c\<rparr>) = g s) \<Longrightarrow>
   oblivious (\<lambda>s. command i (\<lambda>p. set_motor_limits p 0 (of_int (g s))) s)"
  by (rule oblivious_read [where h = "\<lambda>x. command i (\<lambda>p. set_motor_limits p 0 (of_int x))"])
     (rule oblivious_command)

lemma oblivious_seek:
  "(\<And>s c. g (s\<lparr>CCO := c\<rparr>) = g s) \<Longrightarrow>
   oblivious (\<lambda>s. run_to_position i (of_int (g s)) t s)"
  by (rule oblivious_read [where h = "\<lambda>x. run_to_position i (of_int x) t"])
     (rule oblivious_run_to_position)

lemma oblivious_grab: "oblivious grab"
  unfolding grab_def
  by (rule oblivious_seq [OF oblivious_limits oblivious_seq [OF oblivious_seek oblivious_drive]])
     simp_all

lemma oblivious_release: "oblivious release"
  unfolding release_def
  by (rule oblivious_seq [OF oblivious_limits oblivious_seek]) simp_all


lemma oblivious_flip: "oblivious (flip rel)"
  unfolding flip_def
  apply (rule oblivious_seq [OF oblivious_seek])
   apply simp
  apply (rule oblivious_seq [OF oblivious_drive])
  apply (rule oblivious_seq [OF oblivious_grab])
  apply (rule oblivious_seq [OF oblivious_drive])
  apply (rule oblivious_seq [OF oblivious_limits])
   apply simp
  apply (rule oblivious_seq [OF oblivious_seek])
   apply simp
  apply (rule oblivious_seq [OF oblivious_seek])
   apply simp
  apply (cases rel)
   apply (simp_all add: oblivious_release oblivious_return)
  done

lemma oblivious_eval:
  assumes "\<And>s c. f (s\<lparr>CCO := c\<rparr>) = f s"
  shows "oblivious (eval f)"
  unfolding oblivious_def
proof (intro allI)
  fix s c
  show "eval f (s\<lparr>CCO := c\<rparr>) = map_option (\<lambda>(r, s'). (r, s'\<lparr>CCO := c\<rparr>)) (eval f s)"
    by (cases "f s") (simp_all add: eval_def assms)
qed

lemma oblivious_modify:
  assumes "\<And>s c. f (s\<lparr>CCO := c\<rparr>) = (f s)\<lparr>CCO := c\<rparr>"
  shows "oblivious (modify f)"
  unfolding oblivious_def by (simp add: modify_def assms)

lemma oblivious_turn_run:
  "oblivious (bnd turn_position (\<lambda>position. run_to_position MOTOR_TURN position 3))"
  unfolding turn_position_def
  by (rule oblivious_bnd [OF oblivious_eval oblivious_run_to_position]) simp

lemma oblivious_target:
  "oblivious (modify (\<lambda>s. s\<lparr>TurnTableTarget := h (TurnTableTarget s)\<rparr>))"
  by (rule oblivious_modify) simp


lemma oblivious_if: "oblivious m \<Longrightarrow> oblivious n \<Longrightarrow> oblivious (if b then m else n)"
  by simp

lemma oblivious_spin: "oblivious (spin deg overshoot)"
  unfolding spin_def Let_def
  apply (rule oblivious_seq)
   apply (rule oblivious_modify)
   apply simp
  apply (rule oblivious_seq [OF oblivious_turn_run])
  apply (rule oblivious_if)
   apply (rule oblivious_seq [OF _ oblivious_turn_run])
   apply (rule oblivious_modify)
   apply simp
  apply (rule oblivious_return)
  done

lemma obliviousD:
  "oblivious m \<Longrightarrow> m (s\<lparr>CCO := c\<rparr>) = map_option (\<lambda>(r, s'). (r, s'\<lparr>CCO := c\<rparr>)) (m s)"
  unfolding oblivious_def by blast

lemma oblivious_CCO:
  assumes "oblivious m" and "m s = Some (r, s')"
  shows "CCO s' = CCO s"
proof -
  have "m (s\<lparr>CCO := CCO s\<rparr>) = Some (r, s'\<lparr>CCO := CCO s\<rparr>)"
    using obliviousD [OF assms(1), where s = s and c = "CCO s"] assms(2) by simp
  then have "s'\<lparr>CCO := CCO s\<rparr> = s'" using assms(2) by simp
  then have "CCO (s'\<lparr>CCO := CCO s\<rparr>) = CCO s'" by simp
  then show ?thesis by simp
qed

lemma bnd_cases:
  assumes "bnd m f s = Some (r, s')"
  obtains (raised) e where "m s = Some (Inl e, s')" and "r = Inl e"
  | (returned) a s1 where "m s = Some (Inr a, s1)" and "f a s1 = Some (r, s')"
proof (cases "m s")
  case None
  then show ?thesis using assms by (simp add: bnd_def)
next
  case (Some x)
  obtain q s1 where x: "x = (q, s1)" by (cases x)
  show ?thesis
  proof (cases q)
    case (Inl e)
    then show ?thesis using assms Some x raised by (simp add: bnd_def)
  next
    case (Inr a)
    then show ?thesis using assms Some x returned by (simp add: bnd_def)
  qed
qed

lemma seq_cases:
  assumes "seq m n s = Some (r, s')"
  obtains (raised) e where "m s = Some (Inl e, s')" and "r = Inl e"
  | (returned) s1 where "m s = Some (Inr (), s1)" and "n s1 = Some (r, s')"
  using assms unfolding seq_def by (rule bnd_cases) auto

lemma never_raises_bnd:
  assumes "never_raises m" and "\<And>a. never_raises (f a)"
  shows "never_raises (bnd m f)"
  unfolding never_raises_def
proof (intro allI notI)
  fix s e s'
  assume "bnd m f s = Some (Inl e, s')"
  then show False
  proof (cases rule: bnd_cases)
    case (raised e')
    then show ?thesis using assms(1) unfolding never_raises_def by blast
  next
    case (returned a s1)
    then show ?thesis using assms(2) [of a] unfolding never_raises_def by blast
  qed
qed

lemma never_raises_seq: "never_raises m \<Longrightarrow> never_raises n \<Longrightarrow> never_raises (seq m n)"
  by (simp add: seq_def never_raises_bnd)

lemma keeps_target_bnd:
  assumes "keeps_target m" and "\<And>a. keeps_target (f a)"
  shows "keeps_target (bnd m f)"
  unfolding keeps_target_def
proof (intro allI impI)
  fix s r s'
  assume "bnd m f s = Some (r, s')"
  then show "TurnTableTarget s' = TurnTableTarget s"
  proof (cases rule: bnd_cases)
    case (raised e)
    then show ?thesis using assms(1) unfolding keeps_target_def by blast
  next
    case (returned a s1)
    then have "TurnTableTarget s1 = TurnTableTarget s" and "TurnTableTarget s' = TurnTableTarget s1"
      using assms(1) assms(2) [of a] unfolding keeps_target_def by blast+
    then show ?thesis by simp
  qed
qed

lemma keeps_target_seq: "keeps_target m \<Longrightarrow> keeps_target n \<Longrightarrow> keeps_target (seq m n)"
  by (simp add: seq_def keeps_target_bnd)


lemma never_raises_return: "never_raises (return a)"
  by (simp add: never_raises_def return_def)

lemma never_raises_drive: "never_raises (drive f)"
  by (simp add: never_raises_def drive_def modify_def)

lemma never_raises_modify: "never_raises (modify f)"
  by (simp add: never_raises_def modify_def)

lemma never_raises_read: "(\<And>x. never_raises (h x)) \<Longrightarrow> never_raises (\<lambda>s. h (g s) s)"
  unfolding never_raises_def by blast

lemma motor_port_GRAB: "motor_port MOTOR_GRAB s = Some (Inr PORT_D, s)"
  by (simp add: motor_port_def eval_def getitem_def MOTOR_PORTS_def MOTOR_GRAB_def)

lemma motor_port_TURN: "motor_port MOTOR_TURN s = Some (Inr PORT_A, s)"
  by (simp add: motor_port_def eval_def getitem_def MOTOR_PORTS_def MOTOR_TURN_def)

lemma motor_port_state: "motor_port i s = Some (r, s') \<Longrightarrow> s' = s"
  by (cases "getitem MOTOR_PORTS i") (auto simp: motor_port_def eval_def)

lemma never_raises_port:
  "getitem MOTOR_PORTS i = Inr p \<Longrightarrow> never_raises (motor_port i)"
  by (simp add: never_raises_def motor_port_def eval_def)

lemma never_raises_command:
  "getitem MOTOR_PORTS i = Inr p \<Longrightarrow> never_raises (command i f)"
  unfolding command_def
  by (rule never_raises_bnd [OF never_raises_port never_raises_drive])

lemma never_raises_encoder_of:
  "getitem MOTOR_PORTS i = Inr p \<Longrightarrow> never_raises (encoder_of i)"
  unfolding encoder_of_def
  by (rule never_raises_bnd [OF never_raises_port]) (simp_all add: never_raises_def)

lemma never_raises_wait:
  "never_raises (\<lambda>s. case wait_position p position tolerance encoder (BP s) of
         None \<Rightarrow> None
       | Some b \<Rightarrow> Some (Inr (), s\<lparr>BP := b\<rparr>))"
  unfolding never_raises_def
proof (intro allI)
  fix s e s'
  show "(case wait_position p position tolerance encoder (BP s) of None \<Rightarrow> None
        | Some b \<Rightarrow> Some (Inr (), s\<lparr>BP := b\<rparr>)) \<noteq> Some (Inl e, s')"
    by (cases "wait_position p position tolerance encoder (BP s)") simp_all
qed

lemma never_raises_run_to_position:
  assumes "getitem MOTOR_PORTS i = Inr p"
  shows "never_raises (run_to_position i position tolerance)"
  unfolding run_to_position_def
  by (rule never_raises_seq [OF never_raises_command [OF assms]],
      rule never_raises_bnd [OF never_raises_encoder_of [OF assms]],
      rule never_raises_bnd [OF never_raises_port [OF assms]],
      rule never_raises_wait)

lemma getitem_GRAB: "getitem MOTOR_PORTS MOTOR_GRAB = Inr PORT_D"
  by (simp add: getitem_def MOTOR_PORTS_def MOTOR_GRAB_def)

lemma getitem_TURN: "getitem MOTOR_PORTS MOTOR_TURN = Inr PORT_A"
  by (simp add: getitem_def MOTOR_PORTS_def MOTOR_TURN_def)

lemma never_raises_limits:
  "never_raises (\<lambda>s. command MOTOR_GRAB (\<lambda>p. set_motor_limits p 0 (of_int (g s))) s)"
  by (rule never_raises_read [where h = "\<lambda>x. command MOTOR_GRAB (\<lambda>p. set_motor_limits p 0 (of_int x))"])
     (rule never_raises_command [OF getitem_GRAB])

lemma never_raises_seek:
  "never_raises (\<lambda>s. run_to_position MOTOR_GRAB (of_int (g s)) t s)"
  by (rule never_raises_read [where h = "\<lambda>x. run_to_position MOTOR_GRAB (of_int x) t"])
     (rule never_raises_run_to_position [OF getitem_GRAB])

lemma never_raises_grab: "never_raises grab"
  unfolding grab_def
  by (rule never_raises_seq [OF never_raises_limits never_raises_seq [OF never_raises_seek never_raises_drive]])

lemma never_raises_release: "never_raises release"
  unfolding release_def
  by (rule never_raises_seq [OF never_raises_limits never_raises_seek])

lemma never_raises_flip: "never_raises (flip rel)"
  unfolding flip_def
  apply (rule never_raises_seq [OF never_raises_seek])
  apply (rule never_raises_seq [OF never_raises_drive])
  apply (rule never_raises_seq [OF never_raises_grab])
  apply (rule never_raises_seq [OF never_raises_drive])
  apply (rule never_raises_seq [OF never_raises_limits])
  apply (rule never_raises_seq [OF never_raises_seek])
  apply (rule never_raises_seq [OF never_raises_seek])
  apply (cases rel)
   apply (simp_all add: never_raises_release never_raises_return)
  done


lemma keeps_target_return: "keeps_target (return a)"
  by (simp add: keeps_target_def return_def)

lemma keeps_target_drive: "keeps_target (drive f)"
  unfolding keeps_target_def drive_def modify_def by auto

lemma keeps_target_read: "(\<And>x. keeps_target (h x)) \<Longrightarrow> keeps_target (\<lambda>s. h (g s) s)"
  unfolding keeps_target_def by blast

lemma keeps_target_port: "keeps_target (motor_port i)"
  unfolding keeps_target_def using motor_port_state by blast

lemma keeps_target_command: "keeps_target (command i f)"
  unfolding command_def
  by (rule keeps_target_bnd [OF keeps_target_port keeps_target_drive])

lemma keeps_target_encoder_of: "keeps_target (encoder_of i)"
  unfolding encoder_of_def
  by (rule keeps_target_bnd [OF keeps_target_port]) (auto simp: keeps_target_def)

lemma keeps_target_wait:
  "keeps_target (\<lambda>s. case wait_position p position tolerance encoder (BP s) of
         None \<Rightarrow> None
       | Some b \<Rightarrow> Some (Inr (), s\<lparr>BP := b\<rparr>))"
  unfolding keeps_target_def
proof (intro allI impI)
  fix s r s'
  assume "(case wait_position p position tolerance encoder (BP s) of None \<Rightarrow> None
        | Some b \<Rightarrow> Some (Inr (), s\<lparr>BP := b\<rparr>)) = Some (r, s')"
  then show "TurnTableTarget s' = TurnTableTarget s"
    by (cases "wait_position p position tolerance encoder (BP s)") auto
qed

lemma keeps_target_run_to_position: "keeps_target (run_to_position i position tolerance)"
  unfolding run_to_position_def
  by (rule keeps_target_seq [OF keeps_target_command],
      rule keeps_target_bnd [OF keeps_target_encoder_of],
      rule keeps_target_bnd [OF keeps_target_port],
      rule keeps_target_wait)

lemma keeps_target_limits:
  "keeps_target (\<lambda>s. command i (\<lambda>p. set_motor_limits p 0 (of_int (g s))) s)"
  by (rule keeps_target_read [where h = "\<lambda>x. command i (\<lambda>p. set_motor_limits p 0 (of_int x))"])
     (rule keeps_target_command)

lemma keeps_target_seek:
  "keeps_target (\<lambda>s. run_to_position i (of_int (g s)) t s)"
  by (rule keeps_target_read [where h = "\<lambda>x. run_to_position i (of_int x) t"])
     (rule keeps_target_run_to_position)

lemma keeps_target_grab: "keeps_target grab"
  unfolding grab_def
  by (rule keeps_target_seq [OF keeps_target_limits keeps_target_seq [OF keeps_target_seek keeps_target_drive]])

lemma keeps_target_release: "keeps_target release"
  unfolding release_def
  by (rule keeps_target_seq [OF keeps_target_limits keeps_target_seek])

lemma keeps_target_flip: "keeps_target (flip rel)"
  unfolding flip_def
  apply (rule keeps_target_seq [OF keeps_target_seek])
  apply (rule keeps_target_seq [OF keeps_target_drive])
  apply (rule keeps_target_seq [OF keeps_target_grab])
  apply (rule keeps_target_seq [OF keeps_target_drive])
  apply (rule keeps_target_seq [OF keeps_target_limits])
  apply (rule keeps_target_seq [OF keeps_target_seek])
  apply (rule keeps_target_seq [OF keeps_target_seek])
  apply (cases rel)
   apply (simp_all add: keeps_target_release keeps_target_return)
  done

lemma keeps_targetD: "keeps_target m \<Longrightarrow> m s = Some (r, s') \<Longrightarrow> TurnTableTarget s' = TurnTableTarget s"
  unfolding keeps_target_def by blast

lemma never_raisesD: "never_raises m \<Longrightarrow> m s = Some (r, s') \<Longrightarrow> \<exists>a. r = Inr a"
  unfolding never_raises_def by (cases r) auto


lemma seq_assoc: "seq (seq m n) k = seq m (seq n k)"
proof (rule ext)
  fix s
  show "seq (seq m n) k s = seq m (seq n k) s"
  proof (cases "m s")
    case None
    then show ?thesis by (simp add: seq_def bnd_def)
  next
    case (Some x)
    obtain q s1 where x: "x = (q, s1)" by (cases x)
    show ?thesis using Some x by (cases q) (simp_all add: seq_def bnd_def)
  qed
qed

lemma seq_return_right: "seq m (return ()) = m"
proof (rule ext)
  fix s
  show "seq m (return ()) s = m s"
  proof (cases "m s")
    case None
    then show ?thesis by (simp add: seq_def bnd_def)
  next
    case (Some x)
    obtain q s1 where x: "x = (q, s1)" by (cases x)
    show ?thesis using Some x by (cases q) (simp_all add: seq_def bnd_def return_def)
  qed
qed

text \<open>After an oblivious method the rest of the program runs on the same orientation.\<close>

lemma seq_after:
  assumes m: "oblivious m"
    and n: "\<And>s1. CCO s1 = CCO s \<Longrightarrow> n s1 = n' s1"
  shows "seq m n s = seq m n' s"
proof (cases "m s")
  case None
  then show ?thesis by (simp add: seq_def bnd_def)
next
  case (Some x)
  obtain q s1 where x: "x = (q, s1)" by (cases x)
  have "CCO s1 = CCO s" using oblivious_CCO [OF m] Some x by simp
  then have "n s1 = n' s1" by (rule n)
  then show ?thesis using Some x by (cases q) (simp_all add: seq_def bnd_def)
qed

text \<open>An orientation update moves past an oblivious method that raises nothing.\<close>

lemma seq_past:
  assumes m: "oblivious m" and q: "never_raises m"
  shows "seq m n (s\<lparr>CCO := c\<rparr>) = seq m (\<lambda>s'. n (s'\<lparr>CCO := c\<rparr>)) s"
proof (cases "m s")
  case None
  then show ?thesis using obliviousD [OF m, where s = s and c = c] by (simp add: seq_def bnd_def)
next
  case (Some x)
  obtain r s1 where x: "x = (r, s1)" by (cases x)
  obtain a where r: "r = Inr a" using never_raisesD [OF q] Some x by blast
  show ?thesis using obliviousD [OF m, where s = s and c = c] Some x r
    by (simp add: seq_def bnd_def)
qed

lemma CCO_get_0: "CCO s = [U, F, R] \<Longrightarrow> CCO_get 0 s = Some (Inr U, s)"
  by (simp add: CCO_get_def eval_def getitem_def)

lemma CCO_get_1: "CCO s = [U, F, R] \<Longrightarrow> CCO_get 1 s = Some (Inr F, s)"
  by (simp add: CCO_get_def eval_def getitem_def)

lemma CCO_get_2: "CCO s = [U, F, R] \<Longrightarrow> CCO_get 2 s = Some (Inr R, s)"
  by (simp add: CCO_get_def eval_def getitem_def)

lemma CCO_set_0: "CCO s = [U, F, R] \<Longrightarrow> CCO_set 0 v s = Some (Inr (), s\<lparr>CCO := [v, F, R]\<rparr>)"
  by (simp add: CCO_set_def setitem_def)

lemma CCO_set_1: "CCO s = [U, F, R] \<Longrightarrow> CCO_set 1 v s = Some (Inr (), s\<lparr>CCO := [U, v, R]\<rparr>)"
  by (simp add: CCO_set_def setitem_def)

lemma CCO_set_2: "CCO s = [U, F, R] \<Longrightarrow> CCO_set 2 v s = Some (Inr (), s\<lparr>CCO := [U, F, v]\<rparr>)"
  by (simp add: CCO_set_def setitem_def eval_nat_numeral)

text \<open>The four orientation updates of \<^verbatim>\<open>Move\<close>, each as one assignment.\<close>

lemma update_flip:
  assumes "CCO s = [U, F, R]"
  shows "bnd (CCO_get 0) (\<lambda>tmp. seq (bnd (CCO_get 1) (CCO_set 0)) (CCO_set 1 (OF tmp))) s
         = modify (\<lambda>s. s\<lparr>CCO := on_flip U F R\<rparr>) s"
  by (simp add: bnd_def seq_def CCO_get_0 [OF assms] CCO_get_1 [OF assms] CCO_set_0 [OF assms]
        CCO_set_1 [where U = F and F = F and R = R] modify_def on_flip_def)


lemma bnd_CCO_get_0: "CCO s = [U, F, R] \<Longrightarrow> bnd (CCO_get 0) f s = f U s"
  by (simp add: bnd_def CCO_get_0)

lemma bnd_CCO_get_1: "CCO s = [U, F, R] \<Longrightarrow> bnd (CCO_get 1) f s = f F s"
  by (simp add: bnd_def CCO_get_1)

lemma bnd_CCO_get_2: "CCO s = [U, F, R] \<Longrightarrow> bnd (CCO_get 2) f s = f R s"
  by (simp add: bnd_def CCO_get_2)

lemma seq_CCO_set_0: "CCO s = [U, F, R] \<Longrightarrow> seq (CCO_set 0 v) k s = k (s\<lparr>CCO := [v, F, R]\<rparr>)"
  by (simp add: seq_def bnd_def CCO_set_0)

lemma seq_CCO_set_1: "CCO s = [U, F, R] \<Longrightarrow> seq (CCO_set 1 v) k s = k (s\<lparr>CCO := [U, v, R]\<rparr>)"
  by (simp add: seq_def bnd_def CCO_set_1)

lemma seq_CCO_set_2: "CCO s = [U, F, R] \<Longrightarrow> seq (CCO_set 2 v) k s = k (s\<lparr>CCO := [U, F, v]\<rparr>)"
  by (simp add: seq_def bnd_def CCO_set_2)

lemma update_top:
  assumes "CCO s = [U, F, R]"
  shows "seq (bnd (CCO_get 0) (\<lambda>x. CCO_set 0 (OF x))) (bnd (CCO_get 1) (\<lambda>x. CCO_set 1 (OF x))) s
         = modify (\<lambda>s. s\<lparr>CCO := [OF U, OF F, R]\<rparr>) s"
proof -
  have "seq (bnd (CCO_get 0) (\<lambda>x. CCO_set 0 (OF x))) (bnd (CCO_get 1) (\<lambda>x. CCO_set 1 (OF x))) s
        = bnd (CCO_get 1) (\<lambda>x. CCO_set 1 (OF x)) (s\<lparr>CCO := [OF U, F, R]\<rparr>)"
    by (simp add: seq_def bnd_def CCO_get_0 [OF assms] CCO_set_0 [OF assms])
  also have "\<dots> = CCO_set 1 (OF F) (s\<lparr>CCO := [OF U, F, R]\<rparr>)"
    by (rule bnd_CCO_get_1) simp
  also have "\<dots> = Some (Inr (), s\<lparr>CCO := [OF U, F, R]\<rparr>\<lparr>CCO := [OF U, OF F, R]\<rparr>)"
    by (rule CCO_set_1) simp
  finally show ?thesis by (simp add: modify_def)
qed

lemma update_front:
  assumes "CCO s = [U, F, R]"
  shows "seq (bnd (CCO_get 1) (\<lambda>x. CCO_set 1 (OF x))) (seq (bnd (CCO_get 2) (\<lambda>x. CCO_set 2 (OF x))) k) s
         = k (s\<lparr>CCO := [U, OF F, OF R]\<rparr>)"
proof -
  have "seq (bnd (CCO_get 1) (\<lambda>x. CCO_set 1 (OF x))) (seq (bnd (CCO_get 2) (\<lambda>x. CCO_set 2 (OF x))) k) s
        = seq (bnd (CCO_get 2) (\<lambda>x. CCO_set 2 (OF x))) k (s\<lparr>CCO := [U, OF F, R]\<rparr>)"
    by (simp add: seq_def bnd_def CCO_get_1 [OF assms] CCO_set_1 [OF assms])
  also have "\<dots> = k (s\<lparr>CCO := [U, OF F, R]\<rparr>\<lparr>CCO := [U, OF F, OF R]\<rparr>)"
    by (simp add: seq_def bnd_def CCO_get_2 [where U = U and F = "OF F" and R = R]
          CCO_set_2 [where U = U and F = "OF F" and R = R])
  finally show ?thesis by simp
qed

lemma update_right:
  assumes "CCO s = [U, F, R]"
  shows "bnd (CCO_get 2) (\<lambda>tmp. seq (bnd (CCO_get 1) (CCO_set 2)) (seq (CCO_set 1 (OF tmp)) k)) s
         = k (s\<lparr>CCO := [U, OF R, F]\<rparr>)"
proof -
  have "bnd (CCO_get 2) (\<lambda>tmp. seq (bnd (CCO_get 1) (CCO_set 2)) (seq (CCO_set 1 (OF tmp)) k)) s
        = seq (bnd (CCO_get 1) (CCO_set 2)) (seq (CCO_set 1 (OF R)) k) s"
    by (rule bnd_CCO_get_2 [OF assms])
  also have "\<dots> = seq (CCO_set 1 (OF R)) k (s\<lparr>CCO := [U, F, F]\<rparr>)"
    by (simp add: seq_def bnd_def CCO_get_1 [OF assms] CCO_set_2 [OF assms])
  also have "\<dots> = k (s\<lparr>CCO := [U, F, F]\<rparr>\<lparr>CCO := [U, OF R, F]\<rparr>)"
    by (rule seq_CCO_set_1) simp
  finally show ?thesis by simp
qed

lemma update_left:
  assumes "CCO s = [U, F, R]"
  shows "bnd (CCO_get 1) (\<lambda>tmp. seq (bnd (CCO_get 2) (CCO_set 1)) (seq (CCO_set 2 (OF tmp)) k)) s
         = k (s\<lparr>CCO := [U, R, OF F]\<rparr>)"
proof -
  have "bnd (CCO_get 1) (\<lambda>tmp. seq (bnd (CCO_get 2) (CCO_set 1)) (seq (CCO_set 2 (OF tmp)) k)) s
        = seq (bnd (CCO_get 2) (CCO_set 1)) (seq (CCO_set 2 (OF F)) k) s"
    by (rule bnd_CCO_get_1 [OF assms])
  also have "\<dots> = seq (CCO_set 2 (OF F)) k (s\<lparr>CCO := [U, R, R]\<rparr>)"
    by (simp add: seq_def bnd_def CCO_get_2 [OF assms] CCO_set_1 [OF assms])
  also have "\<dots> = k (s\<lparr>CCO := [U, R, R]\<rparr>\<lparr>CCO := [U, R, OF F]\<rparr>)"
    by (rule seq_CCO_set_2) simp
  finally show ?thesis by simp
qed

text \<open>A flip followed by its orientation update, started on the orientation \<open>[a, b, c]\<close>.\<close>

lemma flip_update:
  "seq (flip False) (bnd (CCO_get 0) (\<lambda>tmp. seq (bnd (CCO_get 1) (CCO_set 0)) (CCO_set 1 (OF tmp))))
     (s\<lparr>CCO := [a, b, c]\<rparr>)
   = seq (flip False) (modify (\<lambda>s. s\<lparr>CCO := on_flip a b c\<rparr>)) s"
proof -
  have "(\<lambda>s'. bnd (CCO_get 0) (\<lambda>tmp. seq (bnd (CCO_get 1) (CCO_set 0)) (CCO_set 1 (OF tmp)))
              (s'\<lparr>CCO := [a, b, c]\<rparr>))
        = modify (\<lambda>s. s\<lparr>CCO := on_flip a b c\<rparr>)"
  proof (rule ext)
    fix s'
    have "bnd (CCO_get 0) (\<lambda>tmp. seq (bnd (CCO_get 1) (CCO_set 0)) (CCO_set 1 (OF tmp)))
              (s'\<lparr>CCO := [a, b, c]\<rparr>)
          = modify (\<lambda>s. s\<lparr>CCO := on_flip a b c\<rparr>) (s'\<lparr>CCO := [a, b, c]\<rparr>)"
      by (rule update_flip) simp
    then show "bnd (CCO_get 0) (\<lambda>tmp. seq (bnd (CCO_get 1) (CCO_set 0)) (CCO_set 1 (OF tmp)))
              (s'\<lparr>CCO := [a, b, c]\<rparr>) = modify (\<lambda>s. s\<lparr>CCO := on_flip a b c\<rparr>) s'"
      by (simp add: modify_def)
  qed
  then show ?thesis
    using seq_past [OF oblivious_flip [of False] never_raises_flip [of False], where s = s and c = "[a, b, c]"
        and n = "bnd (CCO_get 0) (\<lambda>tmp. seq (bnd (CCO_get 1) (CCO_set 0)) (CCO_set 1 (OF tmp)))"]
    by simp
qed


text \<open>The six branches of the dispatch, each against its row of the table.\<close>

lemma branch_top:
  assumes c: "CCO s = [U, F, R]"
  shows "seq (flip False) (seq (flip False)
           (seq (bnd (CCO_get 0) (\<lambda>x. CCO_set 0 (OF x))) (bnd (CCO_get 1) (\<lambda>x. CCO_set 1 (OF x))))) s
         = seq (perform_all [Flip, Flip]) (modify (\<lambda>s. s\<lparr>CCO := [OF U, OF F, R]\<rparr>)) s"
proof -
  have "seq (flip False) (seq (flip False)
           (seq (bnd (CCO_get 0) (\<lambda>x. CCO_set 0 (OF x))) (bnd (CCO_get 1) (\<lambda>x. CCO_set 1 (OF x))))) s
        = seq (flip False) (seq (flip False) (modify (\<lambda>s. s\<lparr>CCO := [OF U, OF F, R]\<rparr>))) s"
  proof (rule seq_after [OF oblivious_flip])
    fix s1 :: state assume "CCO s1 = CCO s"
    then have c1: "CCO s1 = [U, F, R]" using c by simp
    show "seq (flip False)
           (seq (bnd (CCO_get 0) (\<lambda>x. CCO_set 0 (OF x))) (bnd (CCO_get 1) (\<lambda>x. CCO_set 1 (OF x)))) s1
          = seq (flip False) (modify (\<lambda>s. s\<lparr>CCO := [OF U, OF F, R]\<rparr>)) s1"
    proof (rule seq_after [OF oblivious_flip])
      fix s2 :: state assume "CCO s2 = CCO s1"
      then have "CCO s2 = [U, F, R]" using c1 by simp
      then show "seq (bnd (CCO_get 0) (\<lambda>x. CCO_set 0 (OF x))) (bnd (CCO_get 1) (\<lambda>x. CCO_set 1 (OF x))) s2
                 = modify (\<lambda>s. s\<lparr>CCO := [OF U, OF F, R]\<rparr>) s2"
        by (rule update_top)
    qed
  qed
  then show ?thesis by (simp add: seq_assoc seq_return_right)
qed

lemma branch_front:
  assumes c: "CCO s = [U, F, R]"
  shows "seq release (seq (spin 180 0)
           (seq (bnd (CCO_get 1) (\<lambda>x. CCO_set 1 (OF x)))
           (seq (bnd (CCO_get 2) (\<lambda>x. CCO_set 2 (OF x)))
           (seq (flip False)
           (bnd (CCO_get 0) (\<lambda>tmp. seq (bnd (CCO_get 1) (CCO_set 0)) (CCO_set 1 (OF tmp)))))))) s
         = seq (perform_all [Release, Spin 180 0, Flip])
             (modify (\<lambda>s. s\<lparr>CCO := on_flip U (OF F) (OF R)\<rparr>)) s"
proof -
  have "seq release (seq (spin 180 0)
           (seq (bnd (CCO_get 1) (\<lambda>x. CCO_set 1 (OF x)))
           (seq (bnd (CCO_get 2) (\<lambda>x. CCO_set 2 (OF x)))
           (seq (flip False)
           (bnd (CCO_get 0) (\<lambda>tmp. seq (bnd (CCO_get 1) (CCO_set 0)) (CCO_set 1 (OF tmp)))))))) s
        = seq release (seq (spin 180 0)
           (seq (flip False) (modify (\<lambda>s. s\<lparr>CCO := on_flip U (OF F) (OF R)\<rparr>)))) s"
  proof (rule seq_after [OF oblivious_release])
    fix s1 :: state assume "CCO s1 = CCO s"
    then have c1: "CCO s1 = [U, F, R]" using c by simp
    show "seq (spin 180 0)
           (seq (bnd (CCO_get 1) (\<lambda>x. CCO_set 1 (OF x)))
           (seq (bnd (CCO_get 2) (\<lambda>x. CCO_set 2 (OF x)))
           (seq (flip False)
           (bnd (CCO_get 0) (\<lambda>tmp. seq (bnd (CCO_get 1) (CCO_set 0)) (CCO_set 1 (OF tmp))))))) s1
          = seq (spin 180 0) (seq (flip False) (modify (\<lambda>s. s\<lparr>CCO := on_flip U (OF F) (OF R)\<rparr>))) s1"
    proof (rule seq_after [OF oblivious_spin])
      fix s2 :: state assume "CCO s2 = CCO s1"
      then have c2: "CCO s2 = [U, F, R]" using c1 by simp
      show "seq (bnd (CCO_get 1) (\<lambda>x. CCO_set 1 (OF x)))
           (seq (bnd (CCO_get 2) (\<lambda>x. CCO_set 2 (OF x)))
           (seq (flip False)
           (bnd (CCO_get 0) (\<lambda>tmp. seq (bnd (CCO_get 1) (CCO_set 0)) (CCO_set 1 (OF tmp)))))) s2
          = seq (flip False) (modify (\<lambda>s. s\<lparr>CCO := on_flip U (OF F) (OF R)\<rparr>)) s2"
        by (simp only: update_front [OF c2] flip_update)
    qed
  qed
  then show ?thesis by (simp add: seq_assoc seq_return_right)
qed

lemma branch_right:
  assumes c: "CCO s = [U, F, R]"
  shows "seq release (seq (spin (- 90) 0)
           (bnd (CCO_get 2) (\<lambda>tmp.
            seq (bnd (CCO_get 1) (CCO_set 2))
           (seq (CCO_set 1 (OF tmp))
           (seq (flip False)
           (bnd (CCO_get 0) (\<lambda>tmp. seq (bnd (CCO_get 1) (CCO_set 0)) (CCO_set 1 (OF tmp))))))))) s
         = seq (perform_all [Release, Spin (- 90) 0, Flip])
             (modify (\<lambda>s. s\<lparr>CCO := on_flip U (OF R) F\<rparr>)) s"
proof -
  have "seq release (seq (spin (- 90) 0)
           (bnd (CCO_get 2) (\<lambda>tmp.
            seq (bnd (CCO_get 1) (CCO_set 2))
           (seq (CCO_set 1 (OF tmp))
           (seq (flip False)
           (bnd (CCO_get 0) (\<lambda>tmp. seq (bnd (CCO_get 1) (CCO_set 0)) (CCO_set 1 (OF tmp))))))))) s
        = seq release (seq (spin (- 90) 0)
           (seq (flip False) (modify (\<lambda>s. s\<lparr>CCO := on_flip U (OF R) F\<rparr>)))) s"
  proof (rule seq_after [OF oblivious_release])
    fix s1 :: state assume "CCO s1 = CCO s"
    then have c1: "CCO s1 = [U, F, R]" using c by simp
    show "seq (spin (- 90) 0)
           (bnd (CCO_get 2) (\<lambda>tmp.
            seq (bnd (CCO_get 1) (CCO_set 2))
           (seq (CCO_set 1 (OF tmp))
           (seq (flip False)
           (bnd (CCO_get 0) (\<lambda>tmp. seq (bnd (CCO_get 1) (CCO_set 0)) (CCO_set 1 (OF tmp)))))))) s1
          = seq (spin (- 90) 0) (seq (flip False) (modify (\<lambda>s. s\<lparr>CCO := on_flip U (OF R) F\<rparr>))) s1"
    proof (rule seq_after [OF oblivious_spin])
      fix s2 :: state assume "CCO s2 = CCO s1"
      then have c2: "CCO s2 = [U, F, R]" using c1 by simp
      show "bnd (CCO_get 2) (\<lambda>tmp.
            seq (bnd (CCO_get 1) (CCO_set 2))
           (seq (CCO_set 1 (OF tmp))
           (seq (flip False)
           (bnd (CCO_get 0) (\<lambda>tmp. seq (bnd (CCO_get 1) (CCO_set 0)) (CCO_set 1 (OF tmp))))))) s2
          = seq (flip False) (modify (\<lambda>s. s\<lparr>CCO := on_flip U (OF R) F\<rparr>)) s2"
        by (simp only: update_right [OF c2] flip_update)
    qed
  qed
  then show ?thesis by (simp add: seq_assoc seq_return_right)
qed

lemma branch_back:
  assumes c: "CCO s = [U, F, R]"
  shows "seq (flip False)
           (bnd (CCO_get 0) (\<lambda>tmp. seq (bnd (CCO_get 1) (CCO_set 0)) (CCO_set 1 (OF tmp)))) s
         = seq (perform_all [Flip]) (modify (\<lambda>s. s\<lparr>CCO := on_flip U F R\<rparr>)) s"
proof -
  have "s\<lparr>CCO := [U, F, R]\<rparr> = s" using c by simp
  then have "seq (flip False)
           (bnd (CCO_get 0) (\<lambda>tmp. seq (bnd (CCO_get 1) (CCO_set 0)) (CCO_set 1 (OF tmp)))) s
        = seq (flip False) (modify (\<lambda>s. s\<lparr>CCO := on_flip U F R\<rparr>)) s"
    using flip_update [where s = s and a = U and b = F and c = R] by simp
  then show ?thesis by (simp add: seq_assoc seq_return_right)
qed

lemma branch_left:
  assumes c: "CCO s = [U, F, R]"
  shows "seq release (seq (spin 90 0)
           (bnd (CCO_get 1) (\<lambda>tmp.
            seq (bnd (CCO_get 2) (CCO_set 1))
           (seq (CCO_set 2 (OF tmp))
           (seq (flip False)
           (bnd (CCO_get 0) (\<lambda>tmp. seq (bnd (CCO_get 1) (CCO_set 0)) (CCO_set 1 (OF tmp))))))))) s
         = seq (perform_all [Release, Spin 90 0, Flip])
             (modify (\<lambda>s. s\<lparr>CCO := on_flip U R (OF F)\<rparr>)) s"
proof -
  have "seq release (seq (spin 90 0)
           (bnd (CCO_get 1) (\<lambda>tmp.
            seq (bnd (CCO_get 2) (CCO_set 1))
           (seq (CCO_set 2 (OF tmp))
           (seq (flip False)
           (bnd (CCO_get 0) (\<lambda>tmp. seq (bnd (CCO_get 1) (CCO_set 0)) (CCO_set 1 (OF tmp))))))))) s
        = seq release (seq (spin 90 0)
           (seq (flip False) (modify (\<lambda>s. s\<lparr>CCO := on_flip U R (OF F)\<rparr>)))) s"
  proof (rule seq_after [OF oblivious_release])
    fix s1 :: state assume "CCO s1 = CCO s"
    then have c1: "CCO s1 = [U, F, R]" using c by simp
    show "seq (spin 90 0)
           (bnd (CCO_get 1) (\<lambda>tmp.
            seq (bnd (CCO_get 2) (CCO_set 1))
           (seq (CCO_set 2 (OF tmp))
           (seq (flip False)
           (bnd (CCO_get 0) (\<lambda>tmp. seq (bnd (CCO_get 1) (CCO_set 0)) (CCO_set 1 (OF tmp)))))))) s1
          = seq (spin 90 0) (seq (flip False) (modify (\<lambda>s. s\<lparr>CCO := on_flip U R (OF F)\<rparr>))) s1"
    proof (rule seq_after [OF oblivious_spin])
      fix s2 :: state assume "CCO s2 = CCO s1"
      then have c2: "CCO s2 = [U, F, R]" using c1 by simp
      show "bnd (CCO_get 1) (\<lambda>tmp.
            seq (bnd (CCO_get 2) (CCO_set 1))
           (seq (CCO_set 2 (OF tmp))
           (seq (flip False)
           (bnd (CCO_get 0) (\<lambda>tmp. seq (bnd (CCO_get 1) (CCO_set 0)) (CCO_set 1 (OF tmp))))))) s2
          = seq (flip False) (modify (\<lambda>s. s\<lparr>CCO := on_flip U R (OF F)\<rparr>)) s2"
        by (simp only: update_left [OF c2] flip_update)
    qed
  qed
  then show ?thesis by (simp add: seq_assoc seq_return_right)
qed


lemma reorient_table:
  assumes c: "CCO s = [U, F, R]"
  shows "reorient t s =
           (case table U F R t of
              None \<Rightarrow> return ()
            | Some (acts, c') \<Rightarrow> seq (perform_all acts) (modify (\<lambda>s. s\<lparr>CCO := c'\<rparr>))) s"
proof -
  consider (top) "t = U" | (front) "t \<noteq> U" "t = F" | (right) "t \<noteq> U" "t \<noteq> F" "t = R"
    | (bottom) "t \<noteq> U" "t \<noteq> F" "t \<noteq> R" "t = OF U"
    | (rear) "t \<noteq> U" "t \<noteq> F" "t \<noteq> R" "t \<noteq> OF U" "t = OF F"
    | (left) "t \<noteq> U" "t \<noteq> F" "t \<noteq> R" "t \<noteq> OF U" "t \<noteq> OF F" "t = OF R"
    | (none) "t \<noteq> U" "t \<noteq> F" "t \<noteq> R" "t \<noteq> OF U" "t \<noteq> OF F" "t \<noteq> OF R"
    by blast
  then show ?thesis
  proof cases
    case top
    then show ?thesis
      by (simp add: reorient_def bnd_CCO_get_0 [OF c] table_def branch_top [OF c])
  next
    case front
    then show ?thesis
      by (simp add: reorient_def bnd_CCO_get_0 [OF c] bnd_CCO_get_1 [OF c] table_def branch_front [OF c])
  next
    case right
    then show ?thesis
      by (simp add: reorient_def bnd_CCO_get_0 [OF c] bnd_CCO_get_1 [OF c] bnd_CCO_get_2 [OF c]
            table_def branch_right [OF c])
  next
    case bottom
    have "s\<lparr>CCO := [U, F, R]\<rparr> = s" using c by simp
    with bottom show ?thesis
      by (simp add: reorient_def bnd_CCO_get_0 [OF c] bnd_CCO_get_1 [OF c] bnd_CCO_get_2 [OF c]
            table_def modify_def return_def)
  next
    case rear
    then show ?thesis
      by (simp add: reorient_def bnd_CCO_get_0 [OF c] bnd_CCO_get_1 [OF c] bnd_CCO_get_2 [OF c]
            table_def branch_back [OF c])
  next
    case left
    then show ?thesis
      by (simp add: reorient_def bnd_CCO_get_0 [OF c] bnd_CCO_get_1 [OF c] bnd_CCO_get_2 [OF c]
            table_def branch_left [OF c])
  next
    case none
    then show ?thesis
      by (simp add: reorient_def bnd_CCO_get_0 [OF c] bnd_CCO_get_1 [OF c] bnd_CCO_get_2 [OF c]
            table_def)
  qed
qed

subsection \<open>The claims\<close>

text \<open>
  C5: for every face value \<open>f\<close> in \<open>0..5\<close>, the opposite face is \<open>(f + 3) mod 6\<close>, the
  opposite of the opposite is \<open>f\<close> again, and no face is its own opposite.
\<close>

theorem OF_opposite:
  "0 \<le> f \<Longrightarrow> f \<le> 5 \<Longrightarrow> OF f = (f + 3) mod 6 \<and> OF (OF f) = f \<and> OF f \<noteq> f"
  unfolding OF_def by (auto simp: mod_pos_pos_trivial) presburger

theorem OF_opposite_witness:
  "(0::int) \<le> 4 \<and> (4::int) \<le> 5 \<and> OF 4 = (4 + 3) mod 6 \<and> OF 4 = 1 \<and> OF (OF 4) = 4 \<and> OF 4 \<noteq> 4"
  using OF_opposite [of 4] by (simp add: OF_def)

lemma seq_left: "m s = m' s \<Longrightarrow> seq m k s = seq m' k s"
  by (simp add: seq_def bnd_def)

lemma Move_table:
  assumes f: "FaceToTurn cmd = Some t" and c: "CCO s = [U, F, R]"
  shows "Move cmd s =
           (case table U F R t of
              None \<Rightarrow> seq grab (spin (DegreesToTurnFace cmd) 22)
            | Some (acts, c') \<Rightarrow>
                seq (perform_all acts)
               (seq (modify (\<lambda>s. s\<lparr>CCO := c'\<rparr>))
               (seq grab (spin (DegreesToTurnFace cmd) 22)))) s"
proof -
  have "Move cmd s = seq (reorient t) (seq grab (spin (DegreesToTurnFace cmd) 22)) s"
    by (simp add: Move_def f)
  also have "\<dots> = seq (case table U F R t of
              None \<Rightarrow> return ()
            | Some (acts, c') \<Rightarrow> seq (perform_all acts) (modify (\<lambda>s. s\<lparr>CCO := c'\<rparr>)))
          (seq grab (spin (DegreesToTurnFace cmd) 22)) s"
    by (rule seq_left) (rule reorient_table [OF c])
  also have "\<dots> = (case table U F R t of
              None \<Rightarrow> seq grab (spin (DegreesToTurnFace cmd) 22)
            | Some (acts, c') \<Rightarrow>
                seq (perform_all acts)
               (seq (modify (\<lambda>s. s\<lparr>CCO := c'\<rparr>))
               (seq grab (spin (DegreesToTurnFace cmd) 22)))) s"
    by (cases "table U F R t") (auto simp: seq_assoc)
  finally show ?thesis .
qed

text \<open>Running the robot in the settled world.\<close>

lemma wait_position_done:
  "\<not> (of_int encoder > position + of_int tolerance \<or> of_int encoder < position - of_int tolerance)
   \<Longrightarrow> wait_position p position tolerance encoder b = Some b"
  by (subst wait_position.simps) simp

lemma wait_position_step:
  "of_int encoder > position + of_int tolerance \<or> of_int encoder < position - of_int tolerance
   \<Longrightarrow> wait_position p position tolerance encoder b =
       wait_position p position tolerance (read_encoder p (sleep 10 b)) (get_motor_encoder p (sleep 10 b))"
  by (subst wait_position.simps) simp

lemma wait_stall_done:
  "EncoderNow = EncoderLast \<Longrightarrow> wait_stall p EncoderLast EncoderNow b = Some (EncoderNow, b)"
  by (subst wait_stall.simps) simp

lemma wait_stall_step:
  "EncoderNow \<noteq> EncoderLast \<Longrightarrow>
   wait_stall p EncoderLast EncoderNow b =
     wait_stall p EncoderNow (read_encoder p (sleep 100 b)) (get_motor_encoder p (sleep 100 b))"
  by (subst wait_stall.simps) simp

lemma floor_rat_numeral: "\<lfloor>numeral a / numeral b :: rat\<rfloor> = numeral a div numeral b"
  by (metis floor_divide_of_int_eq of_int_numeral)

lemma floor_rat_minus_numeral: "\<lfloor>- (numeral a / numeral b) :: rat\<rfloor> = - numeral a div numeral b"
  by (metis divide_minus_left floor_divide_of_int_eq of_int_neg_numeral of_int_numeral)

lemmas calculus =
  return_def raise_def bnd_def seq_def eval_def modify_def drive_def
  motor_port_def command_def encoder_of_def getitem_def setitem_def truediv_def
  MOTOR_PORTS_def MOTOR_GRAB_def MOTOR_TURN_def

lemmas driver =
  emit_def set_motor_power_def set_motor_position_def set_motor_limits_def
  offset_motor_encoder_def read_encoder_def get_motor_encoder_def sleep_def

lemmas methods =
  run_to_position_def turn_position_def spin_def grab_def release_def flip_def
  wait_position_done wait_position_step

lemmas dispatcher =
  Move_def reorient_def FaceToTurn_def DegreesToTurnFace_def find_str_def
  CCO_get_def CCO_set_def OF_def

lemmas worlds = robot_in_def settled_def jammed_def ramp_def floor_rat_numeral floor_rat_minus_numeral

lemma run_R2: "outcome (Move ''R2'') (robot_in settled) = Some (Inr (), [5, 3, 1], 270)"
  by (simp add: outcome_def dispatcher methods calculus driver worlds)

lemma run_R2_table:
  "outcome (seq (perform_all [Release, Spin (- 90) 0, Flip])
               (seq (modify (\<lambda>s. s\<lparr>CCO := [5, 3, 1]\<rparr>))
               (seq grab (spin (- 180) 22)))) (robot_in settled) = Some (Inr (), [5, 3, 1], 270)"
  by (simp add: outcome_def dispatcher methods calculus driver worlds)


text \<open>
  C1: for every orientation \<open>[U, F, R]\<close> and every move token with a face letter,
  \<^verbatim>\<open>Move\<close> takes the first row of the table of section 4.4 whose face is the target
  (comparing it with \<open>U\<close>, \<open>F\<close>, \<open>R\<close>, \<open>OF U\<close>, \<open>OF F\<close>, \<open>OF R\<close> in this order),
  performs that row's physical actions in their order, leaves the row's orientation,
  and then always grabs and spins by the token's degrees with overshoot 22.
\<close>

theorem Move_dispatch:
  assumes "FaceToTurn cmd = Some t" and "CCO s = [U, F, R]"
  shows "Move cmd s =
           (case table U F R t of
              None \<Rightarrow> seq grab (spin (DegreesToTurnFace cmd) 22)
            | Some (acts, c') \<Rightarrow>
                seq (perform_all acts)
               (seq (modify (\<lambda>s. s\<lparr>CCO := c'\<rparr>))
               (seq grab (spin (DegreesToTurnFace cmd) 22)))) s"
  using assms by (rule Move_table)

theorem Move_dispatch_witness:
  "FaceToTurn ''R2'' = Some 2 \<and> CCO (robot_in settled) = [0, 1, 2] \<and>
   table 0 1 2 2 = Some ([Release, Spin (- 90) 0, Flip], [5, 3, 1]) \<and>
   DegreesToTurnFace ''R2'' = - 180 \<and>
   Move ''R2'' (robot_in settled) =
     seq (perform_all [Release, Spin (- 90) 0, Flip])
    (seq (modify (\<lambda>s. s\<lparr>CCO := [5, 3, 1]\<rparr>))
    (seq grab (spin (- 180) 22))) (robot_in settled) \<and>
   outcome (Move ''R2'') (robot_in settled) = Some (Inr (), [5, 3, 1], 270)"
proof -
  have f: "FaceToTurn ''R2'' = Some 2"
    by (simp add: FaceToTurn_def find_str_def)
  have d: "DegreesToTurnFace ''R2'' = - 180"
    by (simp add: DegreesToTurnFace_def find_str_def)
  have c: "CCO (robot_in settled) = [0, 1, 2]"
    by (simp add: robot_in_def)
  have r: "table 0 1 2 2 = Some ([Release, Spin (- 90) 0, Flip], [5, 3, 1])"
    by (simp add: table_def on_flip_def OF_def)
  have m: "Move ''R2'' (robot_in settled) =
     seq (perform_all [Release, Spin (- 90) 0, Flip])
    (seq (modify (\<lambda>s. s\<lparr>CCO := [5, 3, 1]\<rparr>))
    (seq grab (spin (- 180) 22))) (robot_in settled)"
    using Move_dispatch [OF f c] by (simp only: r d option.case prod.case)
  have "outcome (Move ''R2'') (robot_in settled) =
     outcome (seq (perform_all [Release, Spin (- 90) 0, Flip])
    (seq (modify (\<lambda>s. s\<lparr>CCO := [5, 3, 1]\<rparr>))
    (seq grab (spin (- 180) 22)))) (robot_in settled)"
    by (simp only: outcome_def m)
  then have "outcome (Move ''R2'') (robot_in settled) = Some (Inr (), [5, 3, 1], 270)"
    by (simp only: run_R2_table)
  with f d c r m show ?thesis by blast
qed

lemma oblivious_perform: "oblivious (perform a)"
  by (cases a) (simp_all add: oblivious_flip oblivious_release oblivious_spin oblivious_grab)

lemma oblivious_perform_all: "oblivious (perform_all acts)"
  by (induction acts) (simp_all add: oblivious_return oblivious_seq oblivious_perform)

lemma OF_face: "0 \<le> x \<Longrightarrow> x \<le> 5 \<Longrightarrow> 0 \<le> OF x \<and> OF x \<le> 5"
  by (simp add: OF_def)

lemma OF_OF: "0 \<le> x \<Longrightarrow> x \<le> 5 \<Longrightarrow> OF (OF x) = x"
  by (simp add: OF_def)

lemma OF_eq_iff: "0 \<le> x \<Longrightarrow> x \<le> 5 \<Longrightarrow> 0 \<le> y \<Longrightarrow> y \<le> 5 \<Longrightarrow> OF x = y \<longleftrightarrow> x = OF y"
  by (auto simp: OF_def)

lemma OF_neq: "OF x \<noteq> x"
  by (simp add: OF_def)

lemma table_valid:
  assumes v: "valid_orientation [U, F, R]" and t: "table U F R t = Some (acts, c')"
  shows "valid_orientation c'"
proof -
  have U: "0 \<le> U" "U \<le> 5" and F: "0 \<le> F" "F \<le> 5" and R: "0 \<le> R" "R \<le> 5"
    using v by simp_all
  have d: "U \<noteq> F" "U \<noteq> R" "F \<noteq> R" "U \<noteq> OF F" "U \<noteq> OF R" "F \<noteq> OF U" "F \<noteq> OF R"
    "R \<noteq> OF U" "R \<noteq> OF F"
    using v by simp_all
  have o: "OF U \<noteq> OF F" "OF U \<noteq> OF R" "OF F \<noteq> OF R"
    using d U F R by (simp_all add: OF_eq_iff OF_OF OF_face)
  have c: "c' = [OF U, OF F, R] \<or> c' = [OF F, OF U, OF R] \<or> c' = [OF R, OF U, F]
      \<or> c' = [U, F, R] \<or> c' = [F, OF U, R] \<or> c' = [R, OF U, OF F]"
    using t by (auto simp: table_def on_flip_def split: if_splits)
  show ?thesis
    using c U F R d o OF_face [OF U] OF_face [OF F] OF_face [OF R]
    by (auto simp: OF_OF OF_neq)
qed


lemma valid_orientation_triple:
  assumes "valid_orientation c"
  obtains U F R where "c = [U, F, R]"
  using assms by (rule valid_orientation.elims) auto

lemma oblivious_turn: "oblivious (seq grab (spin deg overshoot))"
  by (rule oblivious_seq [OF oblivious_grab oblivious_spin])

lemma Move_orientation:
  assumes f: "FaceToTurn cmd = Some t" and c: "CCO s = [U, F, R]"
    and m: "Move cmd s = Some (r, s')"
  shows "CCO s' = [U, F, R] \<or> (\<exists>acts. table U F R t = Some (acts, CCO s'))"
proof (cases "table U F R t")
  case None
  then have "seq grab (spin (DegreesToTurnFace cmd) 22) s = Some (r, s')"
    using Move_table [OF f c] m by simp
  then have "CCO s' = CCO s" by (rule oblivious_CCO [OF oblivious_turn])
  then show ?thesis using c by simp
next
  case (Some x)
  obtain acts c' where x: "x = (acts, c')" by (cases x)
  have "seq (perform_all acts)
         (seq (modify (\<lambda>s. s\<lparr>CCO := c'\<rparr>)) (seq grab (spin (DegreesToTurnFace cmd) 22))) s
        = Some (r, s')"
    using Move_table [OF f c] m Some x by simp
  then show ?thesis
  proof (cases rule: seq_cases)
    case (raised e)
    then have "CCO s' = CCO s" using oblivious_CCO [OF oblivious_perform_all] by blast
    then show ?thesis using c by simp
  next
    case (returned s1)
    then have "seq grab (spin (DegreesToTurnFace cmd) 22) (s1\<lparr>CCO := c'\<rparr>) = Some (r, s')"
      by (simp add: seq_def bnd_def modify_def)
    then have "CCO s' = CCO (s1\<lparr>CCO := c'\<rparr>)" by (rule oblivious_CCO [OF oblivious_turn])
    then show ?thesis using Some x by simp
  qed
qed

lemma Move_unbound:
  "FaceToTurn cmd = None \<Longrightarrow> Move cmd s = Some (Inl (UnboundLocalError ''FaceToTurn''), s)"
  by (simp add: Move_def raise_def)

lemma Move_valid:
  assumes v: "valid_orientation (CCO s)" and m: "Move cmd s = Some (r, s')"
  shows "valid_orientation (CCO s')"
proof (cases "FaceToTurn cmd")
  case None
  then show ?thesis using Move_unbound [OF None, of s] m v by simp
next
  case (Some t)
  obtain U F R where c: "CCO s = [U, F, R]" using v by (rule valid_orientation_triple)
  from Move_orientation [OF Some c m] show ?thesis
  proof
    assume "CCO s' = [U, F, R]"
    then show ?thesis using v c by simp
  next
    assume "\<exists>acts. table U F R t = Some (acts, CCO s')"
    then obtain acts where "table U F R t = Some (acts, CCO s')" ..
    then show ?thesis using table_valid v c by (metis (no_types))
  qed
qed

lemma reachable_valid: "reachable s \<Longrightarrow> valid_orientation (CCO s)"
proof (induction rule: reachable.induct)
  case (start s)
  then show ?case by (simp add: OF_def)
next
  case (move s cmd r s')
  then show ?case using Move_valid by blast
qed

text \<open>
  C2: every orientation reachable from \<open>[0, 1, 2]\<close> by calls of \<^verbatim>\<open>Move\<close> is a triple of
  faces that are pairwise distinct and pairwise non-opposite, and every call of \<^verbatim>\<open>Move\<close>
  that comes back, by returning or by raising, keeps such an orientation.
\<close>

theorem orientation_invariant:
  "(reachable s \<longrightarrow> valid_orientation (CCO s)) \<and>
   (valid_orientation (CCO s) \<and> Move cmd s = Some (r, s') \<longrightarrow> valid_orientation (CCO s'))"
  using reachable_valid Move_valid by blast

lemma after_Some: "m s \<noteq> None \<Longrightarrow> \<exists>r. m s = Some (r, after m s)"
  by (cases "m s") (auto simp: after_def)

lemma outcome_after: "outcome m s = Some (r, c, n) \<Longrightarrow> m s = Some (r, after m s) \<and> CCO (after m s) = c \<and> TurnTableTarget (after m s) = n"
  by (cases "m s") (auto simp: after_def outcome_def)

theorem orientation_invariant_witness:
  "reachable (robot_in settled) \<and> valid_orientation (CCO (robot_in settled)) \<and>
   Move ''R2'' (robot_in settled) = Some (Inr (), after (Move ''R2'') (robot_in settled)) \<and>
   reachable (after (Move ''R2'') (robot_in settled)) \<and>
   CCO (after (Move ''R2'') (robot_in settled)) = [5, 3, 1] \<and>
   valid_orientation (CCO (after (Move ''R2'') (robot_in settled)))"
proof -
  have c: "CCO (robot_in settled) = [0, 1, 2]" by (simp add: robot_in_def)
  have r0: "reachable (robot_in settled)" using c by (rule reachable.start)
  have v0: "valid_orientation (CCO (robot_in settled))"
    using orientation_invariant [of "robot_in settled"] r0 by blast
  have m: "Move ''R2'' (robot_in settled) = Some (Inr (), after (Move ''R2'') (robot_in settled))"
    and c1: "CCO (after (Move ''R2'') (robot_in settled)) = [5, 3, 1]"
    using outcome_after [OF run_R2] by simp_all
  have r1: "reachable (after (Move ''R2'') (robot_in settled))"
    using r0 m by (rule reachable.move)
  have v1: "valid_orientation (CCO (after (Move ''R2'') (robot_in settled)))"
    using orientation_invariant [of "robot_in settled" "''R2''" "Inr ()" "after (Move ''R2'') (robot_in settled)"] v0 m
    by blast
  from r0 v0 m r1 c1 v1 show ?thesis by blast
qed

lemma six_distinct:
  assumes v: "valid_orientation [U, F, R]"
  shows "distinct [U, F, R, OF U, OF F, OF R]"
proof -
  have U: "0 \<le> U" "U \<le> 5" and F: "0 \<le> F" "F \<le> 5" and R: "0 \<le> R" "R \<le> 5"
    using v by simp_all
  have d: "U \<noteq> F" "U \<noteq> R" "F \<noteq> R" "U \<noteq> OF F" "U \<noteq> OF R" "F \<noteq> OF U" "F \<noteq> OF R"
    "R \<noteq> OF U" "R \<noteq> OF F"
    using v by simp_all
  have o: "OF U \<noteq> OF F" "OF U \<noteq> OF R" "OF F \<noteq> OF R"
    using d U F R by (simp_all add: OF_eq_iff OF_OF OF_face)
  have n: "U \<noteq> OF U" "F \<noteq> OF F" "R \<noteq> OF R"
    using OF_neq [of U] OF_neq [of F] OF_neq [of R] by simp_all
  show ?thesis using d o n by simp
qed

lemma six_faces:
  assumes v: "valid_orientation [U, F, R]"
  shows "set [U, F, R, OF U, OF F, OF R] = {0..5}"
proof (rule card_subset_eq)
  show "finite {0..5::int}" by simp
  have U: "0 \<le> U" "U \<le> 5" and F: "0 \<le> F" "F \<le> 5" and R: "0 \<le> R" "R \<le> 5"
    using v by simp_all
  show "set [U, F, R, OF U, OF F, OF R] \<subseteq> {0..5}"
    using U F R OF_face [OF U] OF_face [OF F] OF_face [OF R] by simp
  have "card (set [U, F, R, OF U, OF F, OF R]) = length [U, F, R, OF U, OF F, OF R]"
    using six_distinct [OF v] by (rule distinct_card)
  then show "card (set [U, F, R, OF U, OF F, OF R]) = card {0..5::int}" by simp
qed

lemma count_list_distinct: "distinct xs \<Longrightarrow> x \<in> set xs \<Longrightarrow> count_list xs x = 1"
  by (induction xs) auto

lemma reorient_return: "reorient t = reorient_else (return ()) t"
  by (simp only: reorient_def reorient_else_def)

lemma reorient_else_table:
  assumes c: "CCO s = [U, F, R]"
  shows "reorient_else fall t s =
           (case table U F R t of
              None \<Rightarrow> fall
            | Some (acts, c') \<Rightarrow> seq (perform_all acts) (modify (\<lambda>s. s\<lparr>CCO := c'\<rparr>))) s"
proof -
  consider (top) "t = U" | (front) "t \<noteq> U" "t = F" | (right) "t \<noteq> U" "t \<noteq> F" "t = R"
    | (bottom) "t \<noteq> U" "t \<noteq> F" "t \<noteq> R" "t = OF U"
    | (rear) "t \<noteq> U" "t \<noteq> F" "t \<noteq> R" "t \<noteq> OF U" "t = OF F"
    | (left) "t \<noteq> U" "t \<noteq> F" "t \<noteq> R" "t \<noteq> OF U" "t \<noteq> OF F" "t = OF R"
    | (none) "t \<noteq> U" "t \<noteq> F" "t \<noteq> R" "t \<noteq> OF U" "t \<noteq> OF F" "t \<noteq> OF R"
    by blast
  then show ?thesis
  proof cases
    case top
    then show ?thesis
      by (simp add: reorient_else_def bnd_CCO_get_0 [OF c] table_def branch_top [OF c])
  next
    case front
    then show ?thesis
      by (simp add: reorient_else_def bnd_CCO_get_0 [OF c] bnd_CCO_get_1 [OF c] table_def
            branch_front [OF c])
  next
    case right
    then show ?thesis
      by (simp add: reorient_else_def bnd_CCO_get_0 [OF c] bnd_CCO_get_1 [OF c]
            bnd_CCO_get_2 [OF c] table_def branch_right [OF c])
  next
    case bottom
    have "s\<lparr>CCO := [U, F, R]\<rparr> = s" using c by simp
    with bottom show ?thesis
      by (simp add: reorient_else_def bnd_CCO_get_0 [OF c] bnd_CCO_get_1 [OF c]
            bnd_CCO_get_2 [OF c] table_def modify_def return_def)
  next
    case rear
    then show ?thesis
      by (simp add: reorient_else_def bnd_CCO_get_0 [OF c] bnd_CCO_get_1 [OF c]
            bnd_CCO_get_2 [OF c] table_def branch_back [OF c])
  next
    case left
    then show ?thesis
      by (simp add: reorient_else_def bnd_CCO_get_0 [OF c] bnd_CCO_get_1 [OF c]
            bnd_CCO_get_2 [OF c] table_def branch_left [OF c])
  next
    case none
    then show ?thesis
      by (simp add: reorient_else_def bnd_CCO_get_0 [OF c] bnd_CCO_get_1 [OF c]
            bnd_CCO_get_2 [OF c] table_def)
  qed
qed

lemma run_B:
  "outcome (Move ''B'') ((robot_in settled)\<lparr>CCO := [5, 3, 1]\<rparr>) = Some (Inr (), [1, 2, 0], 0)"
  by (simp add: outcome_def dispatcher methods calculus driver worlds)

lemma reorient_else_falls:
  "reorient_else (raise IndexError) 1 ((robot_in settled)\<lparr>CCO := [0, 0, 0]\<rparr>) =
     Some (Inl IndexError, (robot_in settled)\<lparr>CCO := [0, 0, 0]\<rparr>)"
  by (simp add: reorient_else_def dispatcher methods calculus driver worlds)

text \<open>
  C9: for an orientation \<open>[U, F, R]\<close> of pairwise distinct, pairwise non-opposite faces,
  the six values that \<^verbatim>\<open>Move\<close> compares the target with, \<open>U\<close>, \<open>F\<close>, \<open>R\<close>, \<open>OF U\<close>,
  \<open>OF F\<close>, \<open>OF R\<close>, are all six faces, and every target face \<open>0..5\<close> is exactly one of
  them.  The chain of lines 159 to 220 then runs the branch of that comparison, which is
  the program of the table's row, and so does \<^verbatim>\<open>Move\<close>; whatever is put on the path where
  no comparison holds is never run.
\<close>

theorem dispatch_covers:
  assumes "valid_orientation [U, F, R]" and "0 \<le> t" and "t \<le> 5" and "CCO s = [U, F, R]"
  shows "set [U, F, R, OF U, OF F, OF R] = {0..5} \<and>
         count_list [U, F, R, OF U, OF F, OF R] t = 1 \<and>
         (\<exists>acts c'. table U F R t = Some (acts, c') \<and>
            reorient t s = seq (perform_all acts) (modify (\<lambda>s. s\<lparr>CCO := c'\<rparr>)) s \<and>
            reorient_else fall t s = reorient t s \<and>
            (FaceToTurn cmd = Some t \<longrightarrow>
               Move cmd s = seq (perform_all acts) (seq (modify (\<lambda>s. s\<lparr>CCO := c'\<rparr>))
                              (seq grab (spin (DegreesToTurnFace cmd) 22))) s))"
proof (intro conjI)
  show f: "set [U, F, R, OF U, OF F, OF R] = {0..5}"
    using assms(1) by (rule six_faces)
  have m: "t \<in> set [U, F, R, OF U, OF F, OF R]"
    using assms(2,3) by (simp only: f) simp
  then show "count_list [U, F, R, OF U, OF F, OF R] t = 1"
    by (rule count_list_distinct [OF six_distinct [OF assms(1)]])
  have "t = U \<or> t = F \<or> t = R \<or> t = OF U \<or> t = OF F \<or> t = OF R"
    using m by auto
  then have "table U F R t \<noteq> None" by (auto simp: table_def)
  then obtain acts c' where r: "table U F R t = Some (acts, c')" by (cases "table U F R t") auto
  have 1: "reorient t s = seq (perform_all acts) (modify (\<lambda>s. s\<lparr>CCO := c'\<rparr>)) s"
    using reorient_table [OF assms(4), of t] r by simp
  have 2: "reorient_else fall t s = reorient t s"
    using reorient_else_table [OF assms(4), of fall t] r 1 by simp
  have 3: "FaceToTurn cmd = Some t \<longrightarrow>
               Move cmd s = seq (perform_all acts) (seq (modify (\<lambda>s. s\<lparr>CCO := c'\<rparr>))
                              (seq grab (spin (DegreesToTurnFace cmd) 22))) s"
  proof
    assume "FaceToTurn cmd = Some t"
    then show "Move cmd s = seq (perform_all acts) (seq (modify (\<lambda>s. s\<lparr>CCO := c'\<rparr>))
                              (seq grab (spin (DegreesToTurnFace cmd) 22))) s"
      using Move_table [OF _ assms(4), of cmd t] r by simp
  qed
  show "\<exists>acts c'. table U F R t = Some (acts, c') \<and>
            reorient t s = seq (perform_all acts) (modify (\<lambda>s. s\<lparr>CCO := c'\<rparr>)) s \<and>
            reorient_else fall t s = reorient t s \<and>
            (FaceToTurn cmd = Some t \<longrightarrow>
               Move cmd s = seq (perform_all acts) (seq (modify (\<lambda>s. s\<lparr>CCO := c'\<rparr>))
                              (seq grab (spin (DegreesToTurnFace cmd) 22))) s)"
    using r 1 2 3 by blast
qed

theorem dispatch_covers_witness:
  "valid_orientation [5, 3, 1] \<and> (0::int) \<le> 4 \<and> (4::int) \<le> 5 \<and>
   CCO ((robot_in settled)\<lparr>CCO := [5, 3, 1]\<rparr>) = [5, 3, 1] \<and>
   FaceToTurn ''B'' = Some 4 \<and>
   set [5, 3, 1, OF 5, OF 3, OF 1] = {0..5} \<and>
   count_list [5, 3, 1, OF 5, OF 3, OF 1] 4 = 1 \<and>
   table 5 3 1 4 = Some ([Release, Spin 90 0, Flip], [1, 2, 0]) \<and>
   reorient 4 ((robot_in settled)\<lparr>CCO := [5, 3, 1]\<rparr>) =
     seq (perform_all [Release, Spin 90 0, Flip]) (modify (\<lambda>s. s\<lparr>CCO := [1, 2, 0]\<rparr>))
       ((robot_in settled)\<lparr>CCO := [5, 3, 1]\<rparr>) \<and>
   reorient_else (raise IndexError) 4 ((robot_in settled)\<lparr>CCO := [5, 3, 1]\<rparr>) =
     reorient 4 ((robot_in settled)\<lparr>CCO := [5, 3, 1]\<rparr>) \<and>
   Move ''B'' ((robot_in settled)\<lparr>CCO := [5, 3, 1]\<rparr>) =
     seq (perform_all [Release, Spin 90 0, Flip])
    (seq (modify (\<lambda>s. s\<lparr>CCO := [1, 2, 0]\<rparr>))
    (seq grab (spin (DegreesToTurnFace ''B'') 22))) ((robot_in settled)\<lparr>CCO := [5, 3, 1]\<rparr>) \<and>
   outcome (Move ''B'') ((robot_in settled)\<lparr>CCO := [5, 3, 1]\<rparr>) = Some (Inr (), [1, 2, 0], 0) \<and>
   reorient_else (raise IndexError) 1 ((robot_in settled)\<lparr>CCO := [0, 0, 0]\<rparr>) =
     Some (Inl IndexError, (robot_in settled)\<lparr>CCO := [0, 0, 0]\<rparr>)"
proof -
  let ?s = "(robot_in settled)\<lparr>CCO := [5, 3, 1]\<rparr>"
  have v: "valid_orientation [5, 3, 1]" by (simp add: OF_def)
  have c: "CCO ?s = [5, 3, 1]" by simp
  have f: "FaceToTurn ''B'' = Some 4" by (simp add: FaceToTurn_def find_str_def)
  have r: "table 5 3 1 4 = Some ([Release, Spin 90 0, Flip], [1, 2, 0])"
    by (simp add: table_def on_flip_def OF_def)
  have k: "set [5, 3, 1, OF 5, OF 3, OF 1] = {0..5} \<and>
         count_list [5, 3, 1, OF 5, OF 3, OF 1] 4 = 1 \<and>
         (\<exists>acts c'. table 5 3 1 4 = Some (acts, c') \<and>
            reorient 4 ?s = seq (perform_all acts) (modify (\<lambda>s. s\<lparr>CCO := c'\<rparr>)) ?s \<and>
            reorient_else (raise IndexError) 4 ?s = reorient 4 ?s \<and>
            (FaceToTurn ''B'' = Some 4 \<longrightarrow>
               Move ''B'' ?s = seq (perform_all acts) (seq (modify (\<lambda>s. s\<lparr>CCO := c'\<rparr>))
                              (seq grab (spin (DegreesToTurnFace ''B'') 22))) ?s))"
    by (rule dispatch_covers [OF v _ _ c]) simp_all
  then obtain acts c' where a: "table 5 3 1 4 = Some (acts, c')"
    and 1: "reorient 4 ?s = seq (perform_all acts) (modify (\<lambda>s. s\<lparr>CCO := c'\<rparr>)) ?s"
    and 2: "reorient_else (raise IndexError) 4 ?s = reorient 4 ?s"
    and 3: "Move ''B'' ?s = seq (perform_all acts) (seq (modify (\<lambda>s. s\<lparr>CCO := c'\<rparr>))
                              (seq grab (spin (DegreesToTurnFace ''B'') 22))) ?s"
    using f by blast
  have e: "acts = [Release, Spin 90 0, Flip]" "c' = [1, 2, 0]" using a r by simp_all
  show ?thesis
    using v c f r k 1 2 3 run_B reorient_else_falls unfolding e by (intro conjI) simp_all
qed

lemma keeps_target_eval: "keeps_target (eval f)"
  unfolding keeps_target_def
proof (intro allI impI)
  fix s r s'
  assume "eval f s = Some (r, s')"
  then show "TurnTableTarget s' = TurnTableTarget s"
    by (cases "f s") (auto simp: eval_def)
qed

lemma keeps_target_turn_run:
  "keeps_target (bnd turn_position (\<lambda>position. run_to_position MOTOR_TURN position 3))"
  unfolding turn_position_def
  by (rule keeps_target_bnd [OF keeps_target_eval keeps_target_run_to_position])

lemma modify_cases:
  assumes "seq (modify f) k s = Some (r, s')"
  shows "k (f s) = Some (r, s')"
  using assms by (simp add: seq_def bnd_def modify_def)

lemma spin_target:
  assumes "spin deg overshoot s = Some (Inr (), s')"
  shows "TurnTableTarget s' = TurnTableTarget s - deg"
proof -
  define v where "v = (if deg < 0 then - overshoot else overshoot)"
  define go where "go = bnd turn_position (\<lambda>position. run_to_position MOTOR_TURN position 3)"
  define s1 where "s1 = s\<lparr>TurnTableTarget := TurnTableTarget s - (deg + v)\<rparr>"
  have k: "keeps_target go" unfolding go_def by (rule keeps_target_turn_run)
  have "seq go (if v \<noteq> 0
           then seq (modify (\<lambda>s. s\<lparr>TurnTableTarget := TurnTableTarget s + v\<rparr>)) go
           else return ()) s1 = Some (Inr (), s')"
    using assms unfolding spin_def Let_def v_def [symmetric] go_def [symmetric] s1_def
    by (rule modify_cases)
  then show ?thesis
  proof (cases rule: seq_cases)
    case (raised e)
    then show ?thesis by simp
  next
    case (returned s2)
    have t2: "TurnTableTarget s2 = TurnTableTarget s - (deg + v)"
      using keeps_targetD [OF k returned(1)] by (simp add: s1_def)
    show ?thesis
    proof (cases "v = 0")
      case True
      then have "s' = s2" using returned(2) by (simp add: return_def)
      then show ?thesis using t2 True by simp
    next
      case False
      then have "go (s2\<lparr>TurnTableTarget := TurnTableTarget s2 + v\<rparr>) = Some (Inr (), s')"
        using returned(2) modify_cases by simp
      then have "TurnTableTarget s' = TurnTableTarget s2 + v"
        using keeps_targetD [OF k] by fastforce
      then show ?thesis using t2 by simp
    qed
  qed
qed

lemma spin_all_target:
  "spin_all ds s = Some (Inr (), s') \<Longrightarrow> TurnTableTarget s' = TurnTableTarget s - sum_list (map fst ds)"
proof (induction ds arbitrary: s)
  case Nil
  then show ?case by (simp add: return_def)
next
  case (Cons d ds)
  obtain deg overshoot where d: "d = (deg, overshoot)" by (cases d)
  from Cons.prems have "seq (spin deg overshoot) (spin_all ds) s = Some (Inr (), s')"
    by (simp add: d)
  then show ?case
  proof (cases rule: seq_cases)
    case (raised e)
    then show ?thesis by simp
  next
    case (returned s1)
    then show ?thesis using spin_target [OF returned(1)] Cons.IH [OF returned(2)] by (simp add: d)
  qed
qed

text \<open>
  C3, as the code has it: \<^verbatim>\<open>spin\<close> subtracts from the cumulative target.  Starting
  from a target of 0, after any finite sequence of completed \<^verbatim>\<open>spin\<close> calls the target
  is the negated sum of the degrees, whatever the overshoots; within one completed call
  the overshoot nets to zero.
\<close>

theorem spin_sum:
  "(TurnTableTarget s = 0 \<and> spin_all ds s = Some (Inr (), s') \<longrightarrow>
      TurnTableTarget s' = - sum_list (map fst ds)) \<and>
   (spin deg overshoot s = Some (Inr (), s1) \<longrightarrow> TurnTableTarget s1 = TurnTableTarget s - deg)"
  using spin_all_target [of ds s s'] spin_target [of deg overshoot s s1] by simp

lemma run_spins:
  "outcome (spin_all [(90, 22), (- 180, 22)]) (robot_in settled) = Some (Inr (), [0, 1, 2], 90)"
  by (simp add: outcome_def methods calculus driver worlds)

lemma run_spin: "outcome (spin 90 22) (robot_in settled) = Some (Inr (), [0, 1, 2], - 90)"
  by (simp add: outcome_def methods calculus driver worlds)

theorem spin_sum_witness:
  "TurnTableTarget (robot_in settled) = 0 \<and>
   spin_all [(90, 22), (- 180, 22)] (robot_in settled) =
     Some (Inr (), after (spin_all [(90, 22), (- 180, 22)]) (robot_in settled)) \<and>
   TurnTableTarget (after (spin_all [(90, 22), (- 180, 22)]) (robot_in settled)) = 90 \<and>
   spin 90 22 (robot_in settled) = Some (Inr (), after (spin 90 22) (robot_in settled)) \<and>
   TurnTableTarget (after (spin 90 22) (robot_in settled)) = - 90"
proof -
  have z: "TurnTableTarget (robot_in settled) = 0" by (simp add: robot_in_def)
  have a: "spin_all [(90, 22), (- 180, 22)] (robot_in settled) =
     Some (Inr (), after (spin_all [(90, 22), (- 180, 22)]) (robot_in settled))"
    using outcome_after [OF run_spins] by simp
  have b: "spin 90 22 (robot_in settled) = Some (Inr (), after (spin 90 22) (robot_in settled))"
    using outcome_after [OF run_spin] by simp
  from spin_sum [of "robot_in settled" "[(90, 22), (- 180, 22)]"
      "after (spin_all [(90, 22), (- 180, 22)]) (robot_in settled)" 90 22
      "after (spin 90 22) (robot_in settled)"] z a b
  show ?thesis by simp
qed

theorem spin_sum_counterexample:
  "TurnTableTarget (robot_in settled) = 0 \<and>
   outcome (spin_all [(90, 22)]) (robot_in settled) = Some (Inr (), [0, 1, 2], - 90) \<and>
   - 90 \<noteq> sum_list (map fst [(90 :: int, 22 :: int)])"
  by (simp add: outcome_def methods calculus driver worlds)

lemma find_from_char:
  "0 \<le> i \<Longrightarrow> find_from s [c] i \<noteq> - 1 \<longleftrightarrow> c \<in> set s"
proof (induction s arbitrary: i)
  case Nil
  then show ?case by simp
next
  case (Cons a s)
  have "0 \<le> i + 1" using Cons.prems by simp
  then have "find_from s [c] (i + 1) \<noteq> - 1 \<longleftrightarrow> c \<in> set s" by (rule Cons.IH)
  then show ?case using Cons.prems by auto
qed

lemma find_str_char: "find_str s [c] \<noteq> - 1 \<longleftrightarrow> c \<in> set s"
  unfolding find_str_def by (rule find_from_char) simp

text \<open>
  C4: the degrees of a token are 90 when it contains an apostrophe, otherwise - 180 when
  it contains the digit 2, otherwise - 90 (so a token with both gives 90); the target
  face is chosen by looking for the letters U, F, R, D, B, L in this order of priority,
  the first letter of this order that the token contains giving the face 0 to 5.
\<close>

theorem token_parse:
  "DegreesToTurnFace cmd =
     (if CHR 0x27 \<in> set cmd then 90 else if CHR ''2'' \<in> set cmd then - 180 else - 90) \<and>
   FaceToTurn cmd =
     (if CHR ''U'' \<in> set cmd then Some 0
      else if CHR ''F'' \<in> set cmd then Some 1
      else if CHR ''R'' \<in> set cmd then Some 2
      else if CHR ''D'' \<in> set cmd then Some 3
      else if CHR ''B'' \<in> set cmd then Some 4
      else if CHR ''L'' \<in> set cmd then Some 5
      else None)"
  unfolding DegreesToTurnFace_def FaceToTurn_def by (simp only: find_str_char)

lemma FaceToTurn_None:
  "FaceToTurn cmd = None \<longleftrightarrow> set cmd \<inter> set ''UFRDBL'' = {}"
  unfolding FaceToTurn_def by (simp only: find_str_char) auto

text \<open>
  C6, as the code has it: for a move token with none of the letters U, F, R, D, B, L,
  \<^verbatim>\<open>Move\<close> leaves its local variable \<^verbatim>\<open>FaceToTurn\<close> unassigned, and the first comparison of
  the dispatch raises \<^verbatim>\<open>UnboundLocalError\<close>: the token is rejected with an error before any
  motor command, and the robot object is left as it was.  No earlier target face is
  used.
\<close>

theorem Move_no_face:
  assumes "set cmd \<inter> set ''UFRDBL'' = {}"
  shows "FaceToTurn cmd = None \<and> Move cmd s = Some (Inl (UnboundLocalError ''FaceToTurn''), s)"
  using assms FaceToTurn_None [of cmd] Move_unbound [of cmd s] by simp

theorem Move_no_face_witness:
  "set ''X2'' \<inter> set ''UFRDBL'' = {} \<and> FaceToTurn ''X2'' = None \<and>
   Move ''X2'' (robot_in jammed) = Some (Inl (UnboundLocalError ''FaceToTurn''), robot_in jammed)"
proof -
  have "set ''X2'' \<inter> set ''UFRDBL'' = {}" by simp
  then show ?thesis using Move_no_face [of "''X2''" "robot_in jammed"] by blast
qed

theorem Move_no_face_counterexample:
  "FaceToTurn ''X'' = None \<and>
   Move ''X'' (robot_in settled) = Some (Inl (UnboundLocalError ''FaceToTurn''), robot_in settled)"
  by (simp add: Move_def FaceToTurn_def find_str_def raise_def)

lemma run_init:
  "map_option (\<lambda>(r, b). take 3 (log b)) (init ''NXT1'' False \<lparr>log = [], sensor = settled\<rparr>) =
     Some [Set_motor_limits PORT_A 0 (3500 / 3), Set_motor_power PORT_D 15,
           Get_motor_encoder PORT_D 0]"
  by (simp add: init_def configure_def home_all_def wait_stall_done wait_stall_step
        methods calculus driver worlds)

text \<open>
  C8, as the code has it: the two calibration profiles agree in the grip positions and
  the grip speeds and differ in the tooth counts (pinion 24 and gear 56 for NXT1, pinion
  12 and gear 36 for EV3); any other robot style makes the constructor raise
  \<^verbatim>\<open>ValueError\<close> at once: the driver is left exactly as the call found it, with no
  command sent and no pause taken.
\<close>

theorem profiles:
  "map_sum id grip_positions (configure ''NXT1'' dbg bp) = map_sum id grip_positions (configure ''EV3'' dbg bp) \<and>
   map_sum id grip_speeds (configure ''NXT1'' dbg bp) = map_sum id grip_speeds (configure ''EV3'' dbg bp) \<and>
   map_sum id gears (configure ''NXT1'' dbg bp) = Inr [24, 56] \<and>
   map_sum id gears (configure ''EV3'' dbg bp) = Inr [12, 36] \<and>
   (robot_style \<noteq> ''NXT1'' \<and> robot_style \<noteq> ''EV3'' \<longrightarrow>
      configure robot_style dbg bp = Inl (ValueError ''Unsupported robot style'') \<and>
      init robot_style dbg bp = Some (Inl (ValueError ''Unsupported robot style''), bp))"
  by (simp add: configure_def init_def grip_positions_def grip_speeds_def gears_def)

theorem profiles_witness:
  "''NXT2'' \<noteq> ''NXT1'' \<and> ''NXT2'' \<noteq> ''EV3'' \<and>
   init ''NXT2'' False \<lparr>log = [Sleep 10], sensor = jammed\<rparr> =
     Some (Inl (ValueError ''Unsupported robot style''), \<lparr>log = [Sleep 10], sensor = jammed\<rparr>) \<and>
   map_option (\<lambda>(r, b). take 3 (log b)) (init ''NXT1'' False \<lparr>log = [], sensor = settled\<rparr>) =
     Some [Set_motor_limits PORT_A 0 (3500 / 3), Set_motor_power PORT_D 15,
           Get_motor_encoder PORT_D 0]"
  using profiles [of False "\<lparr>log = [Sleep 10], sensor = jammed\<rparr>" "''NXT2''"] run_init
  by simp

theorem profiles_counterexample:
  "profile ''NXT1'' = Inr [24, 56, 0, - 35, - 90, - 130, - 240, 400, 600, 400] \<and>
   profile ''EV3'' = Inr [12, 36, 0, - 35, - 90, - 130, - 240, 400, 600, 400] \<and>
   profile ''NXT1'' \<noteq> profile ''EV3''"
  by (simp add: profile_def configure_def grip_positions_def grip_speeds_def gears_def)

lemma wait_position_outside:
  "wait_position p position tolerance encoder b =
     (if outside position tolerance encoder
      then wait_position p position tolerance (read_encoder p (sleep 10 b))
             (get_motor_encoder p (sleep 10 b))
      else Some b)"
  unfolding outside_def by (rule wait_position.simps)

lemma polls_Suc:
  "polls p (Suc n) x = polls p n (read_encoder p (sleep 10 (snd x)), get_motor_encoder p (sleep 10 (snd x)))"
  by simp

lemma wait_ahead:
  "(\<And>k. k < n \<Longrightarrow> outside position tolerance (fst (polls p k x))) \<Longrightarrow>
   wait_position p position tolerance (fst x) (snd x)
   = wait_position p position tolerance (fst (polls p n x)) (snd (polls p n x))"
proof (induction n arbitrary: x)
  case 0
  then show ?case by simp
next
  case (Suc n)
  define x' where "x' = (read_encoder p (sleep 10 (snd x)), get_motor_encoder p (sleep 10 (snd x)))"
  have "outside position tolerance (fst (polls p 0 x))" by (rule Suc.prems) simp
  then have o: "outside position tolerance (fst x)" by simp
  have "wait_position p position tolerance (fst x) (snd x)
        = wait_position p position tolerance (fst x') (snd x')"
    using o by (subst wait_position_outside) (simp add: x'_def)
  also have "\<dots> = wait_position p position tolerance (fst (polls p n x')) (snd (polls p n x'))"
  proof (rule Suc.IH)
    fix k assume "k < n"
    then have "outside position tolerance (fst (polls p (Suc k) x))" by (intro Suc.prems) simp
    then show "outside position tolerance (fst (polls p k x'))" by (simp add: x'_def)
  qed
  finally show ?case by (simp add: x'_def)
qed

lemma wait_returns_step:
  assumes ih: "\<And>position tolerance encoder b b'. w p position tolerance encoder b = Some b' \<Longrightarrow>
      \<exists>n. b' = snd (polls p n (encoder, b)) \<and>
             \<not> outside position tolerance (fst (polls p n (encoder, b))) \<and>
             (\<forall>k<n. outside position tolerance (fst (polls p k (encoder, b))))"
    and eq: "(if outside position tolerance encoder
              then w p position tolerance (read_encoder p (sleep 10 b)) (get_motor_encoder p (sleep 10 b))
              else Some b) = Some b'"
  shows "\<exists>n. b' = snd (polls p n (encoder, b)) \<and>
             \<not> outside position tolerance (fst (polls p n (encoder, b))) \<and>
             (\<forall>k<n. outside position tolerance (fst (polls p k (encoder, b))))"
proof (cases "outside position tolerance encoder")
  case False
  then have "b' = b" using eq by simp
  then have "b' = snd (polls p 0 (encoder, b)) \<and>
           \<not> outside position tolerance (fst (polls p 0 (encoder, b))) \<and>
           (\<forall>k<0. outside position tolerance (fst (polls p k (encoder, b))))"
    using False by simp
  then show ?thesis by (rule exI)
next
  case True
  define x' where "x' = (read_encoder p (sleep 10 b), get_motor_encoder p (sleep 10 b))"
  have "w p position tolerance (fst x') (snd x') = Some b'"
    using True eq by (simp add: x'_def)
  then have "\<exists>n. b' = snd (polls p n (fst x', snd x')) \<and>
             \<not> outside position tolerance (fst (polls p n (fst x', snd x'))) \<and>
             (\<forall>k<n. outside position tolerance (fst (polls p k (fst x', snd x'))))"
    by (rule ih)
  then obtain n where n: "b' = snd (polls p n x')"
      "\<not> outside position tolerance (fst (polls p n x'))"
      "\<And>k. k < n \<Longrightarrow> outside position tolerance (fst (polls p k x'))"
    by auto
  have all: "\<forall>k<Suc n. outside position tolerance (fst (polls p k (encoder, b)))"
  proof (intro allI impI)
    fix k assume k: "k < Suc n"
    show "outside position tolerance (fst (polls p k (encoder, b)))"
    proof (cases k)
      case 0
      then show ?thesis using True by simp
    next
      case (Suc j)
      then have "j < n" using k by simp
      then have "outside position tolerance (fst (polls p j x'))" by (rule n(3))
      then show ?thesis using Suc by (simp add: x'_def)
    qed
  qed
  have "b' = snd (polls p (Suc n) (encoder, b))" using n(1) by (simp add: x'_def)
  moreover have "\<not> outside position tolerance (fst (polls p (Suc n) (encoder, b)))"
    using n(2) by (simp add: x'_def)
  ultimately have "b' = snd (polls p (Suc n) (encoder, b)) \<and>
             \<not> outside position tolerance (fst (polls p (Suc n) (encoder, b))) \<and>
             (\<forall>k<Suc n. outside position tolerance (fst (polls p k (encoder, b))))"
    using all by blast
  then show ?thesis by (rule exI)
qed


lemma wait_returns:
  assumes "wait_position p position tolerance encoder b = Some b'"
  shows "\<exists>n. b' = snd (polls p n (encoder, b)) \<and>
             \<not> outside position tolerance (fst (polls p n (encoder, b))) \<and>
             (\<forall>k<n. outside position tolerance (fst (polls p k (encoder, b))))"
  apply (rule wait_position.raw_induct [where P = "\<lambda>p position tolerance encoder b b'.
           \<exists>n. b' = snd (polls p n (encoder, b)) \<and>
             \<not> outside position tolerance (fst (polls p n (encoder, b))) \<and>
             (\<forall>k<n. outside position tolerance (fst (polls p k (encoder, b))))", OF _ assms])
  subgoal for w p position tolerance encoder b b'
    apply (rule wait_returns_step [where w = w])
     apply assumption
    apply (simp only: outside_def)
    done
  done

lemma wait_None:
  "wait_position p position tolerance (fst x) (snd x) = None
   \<longleftrightarrow> (\<forall>n. outside position tolerance (fst (polls p n x)))"
proof
  assume none: "wait_position p position tolerance (fst x) (snd x) = None"
  show "\<forall>n. outside position tolerance (fst (polls p n x))"
  proof (rule ccontr)
    assume "\<not> (\<forall>n. outside position tolerance (fst (polls p n x)))"
    then obtain n where n: "\<not> outside position tolerance (fst (polls p n x))" by blast
    define m where "m = (LEAST n. \<not> outside position tolerance (fst (polls p n x)))"
    have m: "\<not> outside position tolerance (fst (polls p m x))"
      unfolding m_def using n by (rule LeastI)
    have "\<And>k. k < m \<Longrightarrow> outside position tolerance (fst (polls p k x))"
      unfolding m_def using not_less_Least by blast
    then have "wait_position p position tolerance (fst x) (snd x)
               = wait_position p position tolerance (fst (polls p m x)) (snd (polls p m x))"
      by (rule wait_ahead)
    also have "\<dots> = Some (snd (polls p m x))"
      using m by (subst wait_position_outside) simp
    finally show False using none by simp
  qed
next
  assume all: "\<forall>n. outside position tolerance (fst (polls p n x))"
  show "wait_position p position tolerance (fst x) (snd x) = None"
  proof (cases "wait_position p position tolerance (fst x) (snd x)")
    case None
    then show ?thesis .
  next
    case (Some b')
    then obtain n where "\<not> outside position tolerance (fst (polls p n (fst x, snd x)))"
      using wait_returns by blast
    then show ?thesis using all by simp
  qed
qed

lemma run_to_position_wait:
  assumes "getitem MOTOR_PORTS port = Inr p"
  shows "run_to_position port position tolerance s =
           (case wait_position p position tolerance (fst (first_poll p position (BP s)))
                   (snd (first_poll p position (BP s))) of
              None \<Rightarrow> None
            | Some b \<Rightarrow> Some (Inr (), s\<lparr>BP := b\<rparr>))"
  by (cases "wait_position p position tolerance (fst (first_poll p position (BP s)))
                   (snd (first_poll p position (BP s)))")
     (simp_all add: run_to_position_def command_def encoder_of_def motor_port_def eval_def assms
        seq_def bnd_def drive_def modify_def first_poll_def)



lemma upt_0_Suc: "[0..<Suc n] = 0 # map Suc [0..<n]"
  by (simp only: map_Suc_upt upt_conv_Cons [OF zero_less_Suc])

lemma polls_log:
  "log (snd (polls p n x)) =
     log (snd x) @ concat (map (\<lambda>k. [Sleep 10, Get_motor_encoder p (fst (polls p (Suc k) x))]) [0..<n])"
proof (induction n arbitrary: x)
  case 0
  then show ?case by simp
next
  case (Suc n)
  define x' where "x' = (read_encoder p (sleep 10 (snd x)), get_motor_encoder p (sleep 10 (snd x)))"
  have s: "\<And>k. polls p (Suc k) x = polls p k x'" by (simp add: x'_def)
  have l: "log (snd x') = log (snd x) @ [Sleep 10, Get_motor_encoder p (fst x')]"
    by (simp add: x'_def get_motor_encoder_def sleep_def emit_def)
  have "log (snd (polls p (Suc n) x)) = log (snd (polls p n x'))" by (simp only: s)
  also have "\<dots> = log (snd x') @
      concat (map (\<lambda>k. [Sleep 10, Get_motor_encoder p (fst (polls p (Suc k) x'))]) [0..<n])"
    by (rule Suc.IH)
  also have "\<dots> = log (snd x) @
      concat (map (\<lambda>k. [Sleep 10, Get_motor_encoder p (fst (polls p (Suc k) x))]) [0..<Suc n])"
    by (simp only: upt_0_Suc l s) (simp add: comp_def s)
  finally show ?case .
qed

lemma first_poll_log:
  "log (snd (first_poll p position b)) =
     log b @ [Set_motor_position p position, Get_motor_encoder p (fst (first_poll p position b))]"
  by (simp add: first_poll_def get_motor_encoder_def set_motor_position_def emit_def)

text \<open>
  C7: \<^verbatim>\<open>run_to_position\<close> sends the position, reads the encoder, and then pauses 10 ms
  and reads again for as long as the reading is outside
  \<open>[position - tolerance, position + tolerance]\<close>.  It returns exactly at the first
  reading inside the interval and has no other way out: when no reading ever lies inside,
  the call never returns.
\<close>

theorem run_to_position_blocks:
  assumes "getitem MOTOR_PORTS port = Inr p"
  shows "(run_to_position port position tolerance s = None \<longleftrightarrow>
           (\<forall>n. outside position tolerance (fst (polls p n (first_poll p position (BP s)))))) \<and>
         (run_to_position port position tolerance s = Some (r, s') \<longrightarrow>
           r = Inr () \<and>
           (\<exists>n. s' = s\<lparr>BP := snd (polls p n (first_poll p position (BP s)))\<rparr> \<and>
              \<not> outside position tolerance (fst (polls p n (first_poll p position (BP s)))) \<and>
              (\<forall>k<n. outside position tolerance (fst (polls p k (first_poll p position (BP s))))))) \<and>
         log (snd (polls p n (first_poll p position (BP s)))) =
           log (BP s) @
           [Set_motor_position p position,
            Get_motor_encoder p (fst (first_poll p position (BP s)))] @
           concat (map (\<lambda>k. [Sleep 10,
                     Get_motor_encoder p (fst (polls p (Suc k) (first_poll p position (BP s))))])
                   [0..<n])"
proof (intro conjI impI)
  define x where "x = first_poll p position (BP s)"
  have run: "run_to_position port position tolerance s =
           (case wait_position p position tolerance (fst x) (snd x) of
              None \<Rightarrow> None
            | Some b \<Rightarrow> Some (Inr (), s\<lparr>BP := b\<rparr>))"
    unfolding x_def by (rule run_to_position_wait [OF assms])
  have "run_to_position port position tolerance s = None \<longleftrightarrow>
          wait_position p position tolerance (fst x) (snd x) = None"
    unfolding run by (cases "wait_position p position tolerance (fst x) (snd x)") simp_all
  then show "run_to_position port position tolerance s = None \<longleftrightarrow>
           (\<forall>n. outside position tolerance (fst (polls p n (first_poll p position (BP s)))))"
    unfolding x_def by (simp only: wait_None)
  show "log (snd (polls p n (first_poll p position (BP s)))) =
           log (BP s) @
           [Set_motor_position p position,
            Get_motor_encoder p (fst (first_poll p position (BP s)))] @
           concat (map (\<lambda>k. [Sleep 10,
                     Get_motor_encoder p (fst (polls p (Suc k) (first_poll p position (BP s))))])
                   [0..<n])"
    by (simp only: polls_log first_poll_log append_assoc)
  assume some: "run_to_position port position tolerance s = Some (r, s')"
  then obtain b where b: "wait_position p position tolerance (fst x) (snd x) = Some b"
    and r: "r = Inr ()" and s': "s' = s\<lparr>BP := b\<rparr>"
    unfolding run by (cases "wait_position p position tolerance (fst x) (snd x)") auto
  show "r = Inr ()" by (rule r)
  have "\<exists>n. b = snd (polls p n (fst x, snd x)) \<and>
             \<not> outside position tolerance (fst (polls p n (fst x, snd x))) \<and>
             (\<forall>k<n. outside position tolerance (fst (polls p k (fst x, snd x))))"
    using b by (rule wait_returns)
  then show "\<exists>n. s' = s\<lparr>BP := snd (polls p n (first_poll p position (BP s)))\<rparr> \<and>
              \<not> outside position tolerance (fst (polls p n (first_poll p position (BP s)))) \<and>
              (\<forall>k<n. outside position tolerance (fst (polls p k (first_poll p position (BP s)))))"
    unfolding s' x_def by (simp only: prod.collapse) blast
qed

lemma jammed_polls:
  "sensor (snd x) = jammed \<Longrightarrow> fst x = 1000 \<Longrightarrow> fst (polls p n x) = 1000"
proof (induction n arbitrary: x)
  case 0
  then show ?case by simp
next
  case (Suc n)
  have "fst (polls p n (read_encoder p (sleep 10 (snd x)), get_motor_encoder p (sleep 10 (snd x)))) = 1000"
    by (rule Suc.IH)
       (simp_all add: Suc.prems read_encoder_def get_motor_encoder_def sleep_def emit_def jammed_def)
  then show ?case by simp
qed

lemma run_ramp:
  "trace (run_to_position MOTOR_TURN 50 3) (robot_in ramp) =
     Some [Set_motor_position PORT_A 50, Get_motor_encoder PORT_A 0,
           Sleep 10, Get_motor_encoder PORT_A 25, Sleep 10, Get_motor_encoder PORT_A 50]"
  by (simp add: trace_def methods calculus driver worlds)

theorem run_to_position_blocks_witness:
  "getitem MOTOR_PORTS MOTOR_TURN = Inr PORT_A \<and>
   run_to_position MOTOR_TURN 50 3 (robot_in jammed) = None \<and>
   trace (run_to_position MOTOR_TURN 50 3) (robot_in ramp) =
     Some [Set_motor_position PORT_A 50, Get_motor_encoder PORT_A 0,
           Sleep 10, Get_motor_encoder PORT_A 25, Sleep 10, Get_motor_encoder PORT_A 50] \<and>
   outside 50 3 0 \<and> outside 50 3 25 \<and> \<not> outside 50 3 50"
proof -
  have j: "\<forall>n. outside 50 3 (fst (polls PORT_A n (first_poll PORT_A 50 (BP (robot_in jammed)))))"
  proof
    fix n
    have "fst (polls PORT_A n (first_poll PORT_A 50 (BP (robot_in jammed)))) = 1000"
      by (rule jammed_polls)
         (simp_all add: first_poll_def robot_in_def read_encoder_def get_motor_encoder_def
            set_motor_position_def emit_def jammed_def)
    then show "outside 50 3 (fst (polls PORT_A n (first_poll PORT_A 50 (BP (robot_in jammed)))))"
      by (simp add: outside_def)
  qed
  have "run_to_position MOTOR_TURN 50 3 (robot_in jammed) = None"
    using run_to_position_blocks [OF getitem_TURN, of 50 3 "robot_in jammed"] j by blast
  then show ?thesis using getitem_TURN run_ramp by (simp add: outside_def)
qed

lemma oblivious_stall:
  "oblivious (\<lambda>s. case wait_stall p EncoderLast EncoderNow (BP s) of
         None \<Rightarrow> None
       | Some (e, b) \<Rightarrow> Some (Inr e, s\<lparr>BP := b\<rparr>))"
  unfolding oblivious_def
proof (intro allI)
  fix s c
  show "(case wait_stall p EncoderLast EncoderNow (BP (s\<lparr>CCO := c\<rparr>)) of None \<Rightarrow> None
        | Some (e, b) \<Rightarrow> Some (Inr e, s\<lparr>CCO := c\<rparr>\<lparr>BP := b\<rparr>)) =
       map_option (\<lambda>(r, s'). (r, s'\<lparr>CCO := c\<rparr>))
        (case wait_stall p EncoderLast EncoderNow (BP s) of None \<Rightarrow> None
         | Some (e, b) \<Rightarrow> Some (Inr e, s\<lparr>BP := b\<rparr>))"
  proof (cases "wait_stall p EncoderLast EncoderNow (BP s)")
    case None
    then show ?thesis by simp
  next
    case (Some x)
    then show ?thesis by (cases x) simp
  qed
qed

lemma oblivious_rest:
  "oblivious (\<lambda>s. command MOTOR_GRAB
                 (\<lambda>p. set_motor_position p (of_int (MOTOR_GRAB_POSITION_REST s))) s)"
  by (rule oblivious_read [where h = "\<lambda>x. command MOTOR_GRAB (\<lambda>p. set_motor_position p (of_int x))"])
     (rule oblivious_command, simp)

lemma oblivious_home_all: "oblivious home_all"
  unfolding home_all_def
  apply (rule oblivious_seq [OF oblivious_command])
  apply (rule oblivious_bnd [OF oblivious_encoder_of])
  apply (rule oblivious_seq [OF oblivious_drive])
  apply (rule oblivious_bnd [OF oblivious_encoder_of])
  apply (rule oblivious_bnd)
   apply (rule oblivious_bnd [OF oblivious_motor_port])
   apply (rule oblivious_stall)
  apply (rule oblivious_seq [OF oblivious_command])
  apply (rule oblivious_seq [OF oblivious_rest])
  apply (rule oblivious_seq)
   apply (rule oblivious_bnd [OF oblivious_encoder_of])
   apply (rule oblivious_command)
  apply (rule oblivious_seq)
   apply (rule oblivious_modify)
   apply simp
  apply (rule oblivious_spin)
  done

lemma seq_last:
  assumes "seq m n s = Some (Inr a, s')"
  obtains s1 where "n s1 = Some (Inr a, s')"
  using assms by (cases rule: seq_cases) auto

lemma bnd_last:
  assumes "bnd m f s = Some (Inr b, s')"
  obtains a s1 where "f a s1 = Some (Inr b, s')"
  using assms by (cases rule: bnd_cases) auto

lemma home_all_target:
  assumes "home_all s = Some (Inr (), s')"
  shows "TurnTableTarget s' = 0"
proof -
  define tail where "tail = seq (modify (\<lambda>s. s\<lparr>TurnTableTarget := 0\<rparr>)) (spin 0 0)"
  from assms obtain s1 where "tail s1 = Some (Inr (), s')"
    unfolding home_all_def tail_def [symmetric]
    apply (elim seq_last bnd_last)
    apply blast
    done
  then have "seq (modify (\<lambda>s. s\<lparr>TurnTableTarget := 0\<rparr>)) (spin 0 0) s1 = Some (Inr (), s')"
    by (simp only: tail_def)
  then have "spin 0 0 (s1\<lparr>TurnTableTarget := 0\<rparr>) = Some (Inr (), s')"
    by (rule modify_cases)
  then have "TurnTableTarget s' = TurnTableTarget (s1\<lparr>TurnTableTarget := 0\<rparr>) - 0"
    by (rule spin_target)
  then show ?thesis by simp
qed

lemma perform_target:
  assumes "perform a s = Some (Inr (), s')"
  shows "TurnTableTarget s' = TurnTableTarget s - turned [a]"
proof (cases a)
  case Flip
  then show ?thesis using keeps_targetD [OF keeps_target_flip [of False], of s "Inr ()" s'] assms by simp
next
  case Release
  then show ?thesis using keeps_targetD [OF keeps_target_release, of s "Inr ()" s'] assms by simp
next
  case (Spin deg overshoot)
  then show ?thesis using spin_target [of deg overshoot s s'] assms by simp
next
  case Grab
  then show ?thesis using keeps_targetD [OF keeps_target_grab, of s "Inr ()" s'] assms by simp
qed

lemma turned_Cons: "turned (a # as) = turned [a] + turned as"
  by (cases a) simp_all

lemma perform_all_target:
  "perform_all acts s = Some (Inr (), s') \<Longrightarrow> TurnTableTarget s' = TurnTableTarget s - turned acts"
proof (induction acts arbitrary: s)
  case Nil
  then show ?case by (simp add: return_def)
next
  case (Cons a as)
  from Cons.prems have "seq (perform a) (perform_all as) s = Some (Inr (), s')" by simp
  then show ?case
  proof (cases rule: seq_cases)
    case (raised e)
    then show ?thesis by simp
  next
    case (returned s1)
    have "TurnTableTarget s1 = TurnTableTarget s - turned [a]"
      using returned(1) by (rule perform_target)
    moreover have "TurnTableTarget s' = TurnTableTarget s1 - turned as"
      using returned(2) by (rule Cons.IH)
    ultimately show ?thesis by (simp only: turned_Cons [of a as])
  qed
qed

lemma turn_target:
  assumes "seq grab (spin deg overshoot) s = Some (Inr (), s')"
  shows "TurnTableTarget s' = TurnTableTarget s - deg"
  using assms
proof (cases rule: seq_cases)
  case (raised e)
  then show ?thesis by simp
next
  case (returned s1)
  have "TurnTableTarget s1 = TurnTableTarget s"
    using keeps_target_grab returned(1) by (rule keeps_targetD)
  moreover have "TurnTableTarget s' = TurnTableTarget s1 - deg"
    using returned(2) by (rule spin_target)
  ultimately show ?thesis by simp
qed

lemma Move_target:
  assumes f: "FaceToTurn cmd = Some t" and c: "CCO s = [U, F, R]"
    and m: "Move cmd s = Some (Inr (), s')"
  shows "TurnTableTarget s' = TurnTableTarget s - spun U F R t - DegreesToTurnFace cmd"
proof (cases "table U F R t")
  case None
  then have "seq grab (spin (DegreesToTurnFace cmd) 22) s = Some (Inr (), s')"
    using Move_table [OF f c] m by simp
  then have "TurnTableTarget s' = TurnTableTarget s - DegreesToTurnFace cmd"
    by (rule turn_target)
  then show ?thesis using None by (simp add: spun_def)
next
  case (Some x)
  obtain acts c' where x: "x = (acts, c')" by (cases x)
  have "seq (perform_all acts)
         (seq (modify (\<lambda>s. s\<lparr>CCO := c'\<rparr>)) (seq grab (spin (DegreesToTurnFace cmd) 22))) s
        = Some (Inr (), s')"
    using Move_table [OF f c] m Some x by simp
  then show ?thesis
  proof (cases rule: seq_cases)
    case (raised e)
    then show ?thesis by simp
  next
    case (returned s1)
    have a: "TurnTableTarget s1 = TurnTableTarget s - turned acts"
      using returned(1) by (rule perform_all_target)
    have "seq grab (spin (DegreesToTurnFace cmd) 22) (s1\<lparr>CCO := c'\<rparr>) = Some (Inr (), s')"
      using returned(2) by (rule modify_cases)
    then have "TurnTableTarget s' = TurnTableTarget (s1\<lparr>CCO := c'\<rparr>) - DegreesToTurnFace cmd"
      by (rule turn_target)
    then show ?thesis using a Some x by (simp add: spun_def)
  qed
qed


lemma run_flip: "outcome (flip False) (robot_in settled) = Some (Inr (), [0, 1, 2], 0)"
  by (simp add: outcome_def methods calculus driver worlds)

lemma run_spin_90: "outcome (spin 90 22) (robot_in settled) = Some (Inr (), [0, 1, 2], - 90)"
  by (simp add: outcome_def methods calculus driver worlds)

lemma run_home_all: "outcome home_all (robot_in settled) = Some (Inr (), [0, 1, 2], 0)"
  by (simp add: outcome_def home_all_def wait_stall_done wait_stall_step methods calculus driver worlds)

text \<open>
  C10: a call of \<^verbatim>\<open>run_to_position\<close>, \<^verbatim>\<open>grab\<close>, \<^verbatim>\<open>release\<close> or \<^verbatim>\<open>flip\<close> leaves the
  orientation triple and the cumulative turntable target as they were, however it ends;
  \<^verbatim>\<open>spin\<close> and \<^verbatim>\<open>home_all\<close> leave the orientation triple as it was, and \<^verbatim>\<open>home_all\<close>
  leaves the target at 0.  A call of \<^verbatim>\<open>Move\<close> leaves either the orientation it found or
  the one its table row assigns, and moves the target only by the degrees that the row's
  spins and the final spin subtract.
\<close>

theorem frame:
  assumes "m s = Some (r, s')"
  shows "(m \<in> {run_to_position port position tolerance, grab, release, flip rel} \<longrightarrow>
            CCO s' = CCO s \<and> TurnTableTarget s' = TurnTableTarget s) \<and>
         (m \<in> {spin deg overshoot, home_all} \<longrightarrow> CCO s' = CCO s) \<and>
         (m = home_all \<and> r = Inr () \<longrightarrow> TurnTableTarget s' = 0) \<and>
         (m = Move cmd \<and> FaceToTurn cmd = Some t \<and> CCO s = [U, F, R] \<longrightarrow>
            (CCO s' = CCO s \<or> (\<exists>acts. table U F R t = Some (acts, CCO s'))) \<and>
            (r = Inr () \<longrightarrow>
               TurnTableTarget s' = TurnTableTarget s - spun U F R t - DegreesToTurnFace cmd))"
proof (intro conjI impI)
  assume "m \<in> {run_to_position port position tolerance, grab, release, flip rel}"
  then have "oblivious m \<and> keeps_target m"
    using oblivious_run_to_position keeps_target_run_to_position oblivious_grab keeps_target_grab
      oblivious_release keeps_target_release oblivious_flip keeps_target_flip
    by blast
  then show "CCO s' = CCO s" and "TurnTableTarget s' = TurnTableTarget s"
    using assms oblivious_CCO keeps_targetD by blast+
next
  assume "m \<in> {spin deg overshoot, home_all}"
  then have "oblivious m" using oblivious_spin oblivious_home_all by blast
  then show "CCO s' = CCO s" using assms by (rule oblivious_CCO)
next
  assume "m = home_all \<and> r = Inr ()"
  then have "home_all s = Some (Inr (), s')" using assms by simp
  then show "TurnTableTarget s' = 0" by (rule home_all_target)
next
  assume a: "m = Move cmd \<and> FaceToTurn cmd = Some t \<and> CCO s = [U, F, R]"
  then have f: "FaceToTurn cmd = Some t" and c: "CCO s = [U, F, R]"
    and m: "Move cmd s = Some (r, s')"
    using assms by simp_all
  show "CCO s' = CCO s \<or> (\<exists>acts. table U F R t = Some (acts, CCO s'))"
    using Move_orientation [OF f c m] c by simp
  assume "r = Inr ()"
  then have "Move cmd s = Some (Inr (), s')" using m by simp
  with f c show "TurnTableTarget s' = TurnTableTarget s - spun U F R t - DegreesToTurnFace cmd"
    by (rule Move_target)
qed

theorem frame_witness:
  "flip False (robot_in settled) = Some (Inr (), after (flip False) (robot_in settled)) \<and>
   CCO (after (flip False) (robot_in settled)) = [0, 1, 2] \<and>
   TurnTableTarget (after (flip False) (robot_in settled)) = 0 \<and>
   spin 90 22 (robot_in settled) = Some (Inr (), after (spin 90 22) (robot_in settled)) \<and>
   CCO (after (spin 90 22) (robot_in settled)) = [0, 1, 2] \<and>
   TurnTableTarget (after (spin 90 22) (robot_in settled)) = - 90 \<and>
   home_all (robot_in settled) = Some (Inr (), after home_all (robot_in settled)) \<and>
   CCO (after home_all (robot_in settled)) = [0, 1, 2] \<and>
   TurnTableTarget (after home_all (robot_in settled)) = 0 \<and>
   Move ''R2'' (robot_in settled) = Some (Inr (), after (Move ''R2'') (robot_in settled)) \<and>
   FaceToTurn ''R2'' = Some 2 \<and>
   table 0 1 2 2 = Some ([Release, Spin (- 90) 0, Flip], [5, 3, 1]) \<and>
   CCO (after (Move ''R2'') (robot_in settled)) = [5, 3, 1] \<and>
   TurnTableTarget (after (Move ''R2'') (robot_in settled)) = 0 - (- 90) - (- 180)"
proof -
  have c: "CCO (robot_in settled) = [0, 1, 2]" and n: "TurnTableTarget (robot_in settled) = 0"
    by (simp_all add: robot_in_def)
  have f: "FaceToTurn ''R2'' = Some 2"
    by (simp add: FaceToTurn_def find_str_def)
  have d: "DegreesToTurnFace ''R2'' = - 180"
    by (simp add: DegreesToTurnFace_def find_str_def)
  have r: "table 0 1 2 2 = Some ([Release, Spin (- 90) 0, Flip], [5, 3, 1])"
    by (simp add: table_def on_flip_def OF_def)
  have q: "spun 0 1 2 2 = - 90"
    by (simp add: spun_def r)
  have m1: "flip False (robot_in settled) = Some (Inr (), after (flip False) (robot_in settled))"
    using outcome_after [OF run_flip] by simp
  have m2: "spin 90 22 (robot_in settled) = Some (Inr (), after (spin 90 22) (robot_in settled))"
    using outcome_after [OF run_spin_90] by simp
  have m3: "home_all (robot_in settled) = Some (Inr (), after home_all (robot_in settled))"
    using outcome_after [OF run_home_all] by simp
  have m4: "Move ''R2'' (robot_in settled) = Some (Inr (), after (Move ''R2'') (robot_in settled))"
    and c4: "CCO (after (Move ''R2'') (robot_in settled)) = [5, 3, 1]"
    using outcome_after [OF run_R2] by simp_all
  have 1: "CCO (after (flip False) (robot_in settled)) = [0, 1, 2] \<and>
           TurnTableTarget (after (flip False) (robot_in settled)) = 0"
    using frame [where m = "flip False" and s = "robot_in settled" and rel = False, OF m1] c n
    by simp
  have 2: "CCO (after (spin 90 22) (robot_in settled)) = [0, 1, 2]"
    using frame [where m = "spin 90 22" and s = "robot_in settled" and deg = 90 and overshoot = 22,
        OF m2] c
    by simp
  have 3: "CCO (after home_all (robot_in settled)) = [0, 1, 2] \<and>
           TurnTableTarget (after home_all (robot_in settled)) = 0"
    using frame [where m = home_all and s = "robot_in settled", OF m3] c by simp
  have 4: "TurnTableTarget (after (Move ''R2'') (robot_in settled)) = 0 - (- 90) - (- 180)"
    using frame [where m = "Move ''R2''" and s = "robot_in settled" and cmd = "''R2''"
        and t = 2 and U = 0 and F = 1 and R = 2, OF m4] f c n q d
    by simp
  have 5: "TurnTableTarget (after (spin 90 22) (robot_in settled)) = - 90"
    using outcome_after [OF run_spin_90] by simp
  show ?thesis using 1 2 3 4 5 m1 m2 m3 m4 c4 f r by simp
qed

end
